theory Spec2Isabelle
  imports Main "HOL-Library.Sublist"
begin

section \<open>JavaScript strings and regular expressions\<close>

text \<open>
  The script \<^verbatim>\<open>src/utils/rant-multi-site.js\<close> works on JavaScript strings, which are
  sequences of UTF-16 code units. A string is modelled as the list of its code units
  (natural numbers); \<open>lit\<close> turns an ASCII literal of the source into such a list.
  The link glyph of the entry template (U+1F517) is the surrogate pair 55357, 56599.
\<close>

type_synonym jsstring = "nat list"

definition lit :: "string \<Rightarrow> jsstring" where
  "lit s = map of_char s"

text \<open>
  The regular expressions of the script use literals, character classes, sequence,
  alternation, \<open>?\<close>, \<open>*\<close>, \<open>+\<close> and bounded repetition, all greedy, and neither anchors,
  captures that are read, nor look-around (the one \<open>$\<close> is modelled apart, in
  \<open>stripTrailing\<close>). \<open>matches r s\<close> lists the remainders of \<open>s\<close> after every way of
  matching \<open>r\<close> at the start of \<open>s\<close>, in the order in which a backtracking matcher tries
  them: the head of the list is the match JavaScript reports at that position. An
  iteration of \<open>*\<close> that consumes nothing is rejected, as in ECMAScript.
\<close>

datatype rx = Eps | Ch nat | Str jsstring | Cls "nat \<Rightarrow> bool"
  | Seq rx rx | Alt rx rx | Opt rx | Star rx | Upto nat rx

fun rsize :: "rx \<Rightarrow> nat" where
  "rsize (Seq a b) = Suc (rsize a + rsize b)"
| "rsize (Alt a b) = Suc (rsize a + rsize b)"
| "rsize (Opt a) = Suc (rsize a)"
| "rsize (Star a) = Suc (rsize a)"
| "rsize (Upto n a) = Suc (n + rsize a)"
| "rsize _ = 0"

function matches :: "rx \<Rightarrow> jsstring \<Rightarrow> jsstring list" where
  "matches Eps s = [s]"
| "matches (Ch c) s = (case s of [] \<Rightarrow> [] | x # t \<Rightarrow> if x = c then [t] else [])"
| "matches (Str l) s = (if prefix l s then [drop (length l) s] else [])"
| "matches (Cls p) s = (case s of [] \<Rightarrow> [] | x # t \<Rightarrow> if p x then [t] else [])"
| "matches (Seq a b) s = concat (map (matches b) (matches a s))"
| "matches (Alt a b) s = matches a s @ matches b s"
| "matches (Opt a) s = matches a s @ [s]"
| "matches (Star a) s =
     concat (map (\<lambda>t. if length t < length s then matches (Star a) t else []) (matches a s))
     @ [s]"
| "matches (Upto 0 a) s = [s]"
| "matches (Upto (Suc n) a) s = concat (map (matches (Upto n a)) (matches a s)) @ [s]"
  by pat_completeness auto
termination
  by (relation "inv_image (less_than <*lex*> less_than) (\<lambda>(r, s). (rsize r, length s))") auto

definition Plus :: "rx \<Rightarrow> rx" where
  "Plus a = Seq a (Star a)"

fun seqs :: "rx list \<Rightarrow> rx" where
  "seqs [] = Eps"
| "seqs [a] = a"
| "seqs (a # as) = Seq a (seqs as)"

text \<open>
  \<open>String.prototype.match\<close> with a regular expression that has no \<open>g\<close> flag: the
  leftmost position with a match, as \<open>(index, match[0])\<close>, or \<open>None\<close> for \<open>null\<close>.
  With the \<open>g\<close> flag the script only tests the result against \<open>null\<close>, which is the same test.
\<close>

fun exec_from :: "rx \<Rightarrow> jsstring \<Rightarrow> nat \<Rightarrow> (nat \<times> jsstring) option" where
  "exec_from r s i =
     (case matches r s of
        t # _ \<Rightarrow> Some (i, take (length s - length t) s)
      | [] \<Rightarrow> (case s of [] \<Rightarrow> None | _ # s' \<Rightarrow> exec_from r s' (Suc i)))"

definition js_match :: "jsstring \<Rightarrow> rx \<Rightarrow> (nat \<times> jsstring) option" where
  "js_match s r = exec_from r s 0"

text \<open>
  \<open>String.prototype.replace\<close> with a global regular expression and a callback: scan from
  the left, replace each match by the callback's result and go on after it; a position
  with no match keeps its code unit.
\<close>

fun replace_all :: "rx \<Rightarrow> (jsstring \<Rightarrow> jsstring) \<Rightarrow> jsstring \<Rightarrow> jsstring" where
  "replace_all r f s =
     (case matches r s of
        t # _ \<Rightarrow>
          if length t < length s then f (take (length s - length t) s) @ replace_all r f t
          else f [] @ (case s of [] \<Rightarrow> [] | c # s' \<Rightarrow> c # replace_all r f s')
      | [] \<Rightarrow> (case s of [] \<Rightarrow> [] | c # s' \<Rightarrow> c # replace_all r f s'))"

declare exec_from.simps [simp del] replace_all.simps [simp del]

text \<open>Character classes: \<open>\d\<close>, \<open>[a-zA-Z]\<close>, \<open>[a-zA-Z0-9]\<close>, \<open>\w\<close>, \<open>[0-9A-Fa-f]\<close>, \<open>\s\<close>.\<close>

definition is_digit :: "nat \<Rightarrow> bool" where
  "is_digit c = (48 \<le> c \<and> c \<le> 57)"

definition is_alpha :: "nat \<Rightarrow> bool" where
  "is_alpha c = (65 \<le> c \<and> c \<le> 90 \<or> 97 \<le> c \<and> c \<le> 122)"

definition is_alnum :: "nat \<Rightarrow> bool" where
  "is_alnum c = (is_alpha c \<or> is_digit c)"

definition is_word :: "nat \<Rightarrow> bool" where
  "is_word c = (is_alnum c \<or> c = 95)"

definition is_hex :: "nat \<Rightarrow> bool" where
  "is_hex c = (is_digit c \<or> 65 \<le> c \<and> c \<le> 70 \<or> 97 \<le> c \<and> c \<le> 102)"

definition is_space :: "nat \<Rightarrow> bool" where
  "is_space c = (9 \<le> c \<and> c \<le> 13 \<or> c = 32 \<or> c = 160 \<or> c = 5760
     \<or> 8192 \<le> c \<and> c \<le> 8202 \<or> c = 8232 \<or> c = 8233 \<or> c = 8239 \<or> c = 8287
     \<or> c = 12288 \<or> c = 65279)"

definition startsWith :: "jsstring \<Rightarrow> jsstring \<Rightarrow> bool" where
  "startsWith s p = prefix p s"

fun js_includes :: "jsstring \<Rightarrow> jsstring \<Rightarrow> bool" where
  "js_includes [] p = (p = [])"
| "js_includes (c # s) p = (prefix p (c # s) \<or> js_includes s p)"

definition trim :: "jsstring \<Rightarrow> jsstring" where
  "trim s = rev (dropWhile is_space (rev (dropWhile is_space s)))"

text \<open>\<open>String(n)\<close> for a non-negative integer, and \<open>padStart(2, '0')\<close>.\<close>

fun dec :: "nat \<Rightarrow> jsstring" where
  "dec n = (if n < 10 then [48 + n] else dec (n div 10) @ [48 + n mod 10])"

declare dec.simps [simp del]

definition padStart2 :: "jsstring \<Rightarrow> jsstring" where
  "padStart2 s = replicate (2 - length s) 48 @ s"

section \<open>Date and time of an entry\<close>

text \<open>
  \<open>getCurrentDateTime\<close> reads the clock (\<open>new Date()\<close>); \<open>insertRant\<close> reads it once more
  (\<open>Date.now()\<close>) for the entry id. An \<open>instant\<close> holds what the two reads return: the
  local calendar fields (\<open>getMonth\<close> counts from 0) and the epoch milliseconds. The
  \<open>timestamp\<close> field of the source's result (\<open>toISOString\<close>) is read by no caller and is
  left out.
\<close>

record instant =
  year :: nat
  month :: nat
  day :: nat
  hours :: nat
  minutes :: nat
  epoch_ms :: nat

record datetime =
  date :: jsstring
  displayDate :: jsstring
  time :: jsstring

definition monthNames :: "jsstring list" where
  "monthNames = map lit [''January'', ''February'', ''March'', ''April'', ''May'', ''June'',
     ''July'', ''August'', ''September'', ''October'', ''November'', ''December'']"

definition getCurrentDateTime :: "instant \<Rightarrow> datetime" where
  "getCurrentDateTime now =
     (let yr = dec (year now);
          mo = padStart2 (dec (month now + 1));
          dy = padStart2 (dec (day now));
          mi = padStart2 (dec (minutes now));
          period = (if hours now \<ge> 12 then lit ''PM'' else lit ''AM'');
          displayHours = (if hours now mod 12 = 0 then 12 else hours now mod 12);
          monthName = (if month now < 12 then monthNames ! month now else lit ''undefined'')
      in \<lparr> date = yr @ lit ''-'' @ mo @ lit ''-'' @ dy,
           displayDate = monthName @ lit '' '' @ dy @ lit '', '' @ yr,
           time = dec displayHours @ lit '':'' @ mi @ lit '' '' @ period \<rparr>)"

section \<open>Entry Formatter: auto-linking\<close>

definition pct :: rx where
  "pct = Seq (Ch 37) (Seq (Cls is_hex) (Cls is_hex))"

definition pchar :: rx where
  "pchar = Alt (Cls (\<lambda>c. is_word c \<or> c \<in> set (lit ''._~!$&'' @ [39] @ lit ''()*+,;=:@''))) pct"

definition qchar :: rx where
  "qchar = Alt (Cls (\<lambda>c. is_word c \<or> c \<in> set (lit ''._~!$&'' @ [39] @ lit ''()*+,;=:@/?''))) pct"

definition url_tail :: rx where
  "url_tail = seqs [Opt (Seq (Ch 58) (Plus (Cls is_digit))),
                    Star (Seq (Ch 47) (Star pchar)),
                    Opt (Seq (Ch 63) (Star qchar)),
                    Opt (Seq (Ch 35) (Star qchar))]"

definition host :: rx where
  "host = Plus (Cls (\<lambda>c. c = 45 \<or> is_word c \<or> c = 46))"

definition urlRegex :: rx where
  "urlRegex =
     Alt (seqs [Str (lit ''http''), Opt (Ch 115), Str (lit ''://''), host, url_tail])
    (Alt (seqs [Str (lit ''www.''), host, url_tail])
         (seqs [Plus (seqs [Cls is_alnum,
                            Opt (Seq (Upto 61 (Cls (\<lambda>c. is_alnum c \<or> c = 45))) (Cls is_alnum)),
                            Ch 46]),
                Cls is_alpha, Cls is_alpha, Star (Cls is_alpha), url_tail]))"

definition is_punct :: "nat \<Rightarrow> bool" where
  "is_punct c = (c \<in> set (lit ''.,;:!?''))"

text \<open>
  \<open>match.replace(/[.,;:!?]+$/, '')\<close>: the leftmost match of the pattern is the longest
  run of punctuation that ends the string, and it is removed.
\<close>

definition stripTrailing :: "jsstring \<Rightarrow> jsstring" where
  "stripTrailing m = rev (dropWhile is_punct (rev m))"

definition linkUrl :: "jsstring \<Rightarrow> jsstring" where
  \<open>linkUrl m =
     (let cleanMatch = stripTrailing m;
          trailingPunctuation = drop (length cleanMatch) m;
          url = (if \<not> startsWith cleanMatch (lit ''http://'')
                    \<and> \<not> startsWith cleanMatch (lit ''https://'')
                    \<and> \<not> startsWith cleanMatch (lit ''ftp://'')
                 then lit ''https://'' @ cleanMatch else cleanMatch)
      in lit ''<a href="'' @ url @ lit ''" target="_blank" rel="noopener noreferrer">''
           @ cleanMatch @ lit ''</a>'' @ trailingPunctuation)\<close>

definition autoLinkUrls :: "jsstring \<Rightarrow> jsstring" where
  "autoLinkUrls text = replace_all urlRegex linkUrl text"

section \<open>Insertion Planner\<close>

text \<open>
  The ways a run ends before its last statement: each is a \<open>process.exit\<close> of the
  script, with the code that \<open>exit_code\<close> gives. \<open>SiteMissing\<close> is the \<open>TypeError\<close> of
  reading \<open>siteConfig.path\<close> when the site table has no entry for the site, which the
  handler of \<open>main().catch\<close> turns into exit code 1.
\<close>

datatype halt = HelpShown | UnknownSite | EditorFailed | ConfigFailed | NoRantText
  | PullFailed | RantsFileNotFound | TimelineNotFound | GitFailed | SiteMissing

fun exit_code :: "halt \<Rightarrow> nat" where
  "exit_code HelpShown = 0"
| "exit_code _ = 1"

record siteConfig =
  path :: jsstring
  filename :: jsstring
  branch :: jsstring

definition containerMarker :: jsstring where
  \<open>containerMarker = lit ''<div class="rants-timeline">''\<close>

definition timelineRegex :: rx where
  "timelineRegex = Str containerMarker"

text \<open>
  The two patterns built with \<open>new RegExp\<close> splice the date into the pattern text. The
  date of \<open>getCurrentDateTime\<close> consists of digits and hyphens, which stand for
  themselves in a pattern, so the date is a literal part of both. \<open>dayTag\<close> is the
  opening tag of a day section up to the date, \<open>dateTag d\<close> the whole opening tag for
  the date \<open>d\<close>.
\<close>

definition dayTag :: jsstring where
  \<open>dayTag = lit ''<div class="rant-day" data-date="''\<close>

definition dateTag :: "jsstring \<Rightarrow> jsstring" where
  \<open>dateTag d = dayTag @ d @ lit ''">''\<close>

definition datePattern :: "jsstring \<Rightarrow> rx" where
  "datePattern d = Str (dateTag d)"

definition dateHeaderPattern :: "jsstring \<Rightarrow> rx" where
  \<open>dateHeaderPattern d =
     seqs [Str (dateTag d),
           Star (Cls is_space),
           Str (lit ''<div class="date-header">''),
           Star (Cls is_space),
           Str (lit ''<span class="date">''),
           Plus (Cls (\<lambda>c. c \<noteq> 60)),
           Str (lit ''</span>''),
           Star (Cls is_space),
           Str (lit ''</div>'')]\<close>

definition firstDateRegex :: rx where
  "firstDateRegex = Str dayTag"

definition linkGlyph :: jsstring where
  "linkGlyph = [55357, 56599]"

definition entryBody :: "jsstring \<Rightarrow> jsstring" where
  "entryBody rantText = replace_all (Ch 10) (\<lambda>m. [10]) (autoLinkUrls rantText)"

definition entryHTML :: "jsstring \<Rightarrow> jsstring \<Rightarrow> jsstring \<Rightarrow> jsstring" where
  \<open>entryHTML rantId tm rantText =
     lit ''\<newline>\<newline><div class="rant-entry" id="'' @ rantId @ lit ''">\<newline><div class="time-stamp">\<newline>''
     @ tm @ lit ''\<newline><a href="#'' @ rantId
     @ lit ''" class="rant-anchor" title="Link to this rant">'' @ linkGlyph
     @ lit ''</a>\<newline></div>\<newline><div class="rant-content">\<newline>''
     @ entryBody rantText @ lit ''\<newline></div>\<newline></div>''\<close>

definition dayHTML :: "jsstring \<Rightarrow> jsstring \<Rightarrow> jsstring \<Rightarrow> jsstring \<Rightarrow> jsstring \<Rightarrow> jsstring" where
  \<open>dayHTML d dd rantId tm rantText =
     lit ''\<newline>\<newline><!-- '' @ d @ lit '' -->\<newline><div class="rant-day" data-date="'' @ d
     @ lit ''">\<newline><div class="date-header">\<newline><span class="date">'' @ dd
     @ lit ''</span>\<newline></div>\<newline>\<newline><div class="rant-entry" id="'' @ rantId
     @ lit ''">\<newline><div class="time-stamp">\<newline>''
     @ tm @ lit ''\<newline><a href="#'' @ rantId
     @ lit ''" class="rant-anchor" title="Link to this rant">'' @ linkGlyph
     @ lit ''</a>\<newline></div>\<newline><div class="rant-content">\<newline>''
     @ entryBody rantText @ lit ''\<newline></div>\<newline></div>\<newline>\<newline></div>''\<close>

definition rantIdOf :: "instant \<Rightarrow> jsstring" where
  "rantIdOf now = lit ''rant-'' @ date (getCurrentDateTime now) @ lit ''-'' @ dec (epoch_ms now)"

text \<open>
  The insertion position and the new markup are \<open>let\<close> variables of the source that stay
  \<open>undefined\<close> on one path; they are options here, \<open>None\<close> for \<open>undefined\<close>. \<open>plan\<close> is the
  part of \<open>insertRant\<close> between finding the container and the splice: it takes the
  content and the end of the container marker.
\<close>

definition plan :: "instant \<Rightarrow> jsstring \<Rightarrow> jsstring \<Rightarrow> nat \<Rightarrow> nat option \<times> jsstring option" where
  "plan now rantText content timelineStart =
     (let dt = getCurrentDateTime now; rantId = rantIdOf now in
      case js_match content (datePattern (date dt)) of
        Some existingDateMatch \<Rightarrow>
          (case js_match content (dateHeaderPattern (date dt)) of
             Some (index, m) \<Rightarrow>
               (Some (index + length m), Some (entryHTML rantId (time dt) rantText))
           | None \<Rightarrow> (None, None))
      | None \<Rightarrow>
          (case js_match (drop timelineStart content) firstDateRegex of
             Some (index, m) \<Rightarrow>
               (Some (timelineStart + index),
                Some (dayHTML (date dt) (displayDate dt) rantId (time dt) rantText))
           | None \<Rightarrow>
               (Some timelineStart,
                Some (dayHTML (date dt) (displayDate dt) rantId (time dt) rantText))))"

text \<open>
  \<open>content.slice(0, p) + html + content.slice(p)\<close>, with JavaScript's treatment of
  \<open>undefined\<close>: an undefined end of a slice is the length, an undefined start is 0, and
  \<open>undefined\<close> concatenated to a string is the text \<open>undefined\<close>.
\<close>

definition slice_to :: "jsstring \<Rightarrow> nat option \<Rightarrow> jsstring" where
  "slice_to s p = (case p of None \<Rightarrow> s | Some n \<Rightarrow> take n s)"

definition slice_from :: "jsstring \<Rightarrow> nat option \<Rightarrow> jsstring" where
  "slice_from s p = (case p of None \<Rightarrow> s | Some n \<Rightarrow> drop n s)"

definition to_text :: "jsstring option \<Rightarrow> jsstring" where
  "to_text h = (case h of None \<Rightarrow> lit ''undefined'' | Some x \<Rightarrow> x)"

definition splice :: "jsstring \<Rightarrow> nat option \<times> jsstring option \<Rightarrow> jsstring" where
  "splice content pl = slice_to content (fst pl) @ to_text (snd pl) @ slice_from content (fst pl)"

text \<open>
  The text computation of \<open>insertRant\<close> (lines 414 to 484): the new content, or the exit
  of the run when the container marker is missing.
\<close>

definition insertContent :: "instant \<Rightarrow> jsstring \<Rightarrow> jsstring \<Rightarrow> halt + jsstring" where
  "insertContent now rantText content =
     (case js_match content timelineRegex of
        None \<Rightarrow> Inl TimelineNotFound
      | Some (index, m) \<Rightarrow>
          Inr (splice content (plan now rantText content (index + length m))))"

text \<open>
  The world of a run: the content of the site's document file (\<open>None\<close> when the file does
  not exist) and the trace of what the run did to the file and the repository.
\<close>

datatype event = WriteRants | GitPull jsstring | GitStatus | GitAdd jsstring
  | GitCommit jsstring | GitPush jsstring

record world =
  rants_file :: "jsstring option"
  trace :: "event list"

record rant_result =
  r_date :: jsstring
  r_time :: jsstring
  r_preview :: jsstring
  r_id :: jsstring
  r_site :: jsstring

definition insertRant :: "instant \<Rightarrow> jsstring \<Rightarrow> siteConfig \<Rightarrow> world \<Rightarrow> (halt + rant_result) \<times> world" where
  "insertRant now rantText cfg w =
     (let dt = getCurrentDateTime now in
      case rants_file w of
        None \<Rightarrow> (Inl RantsFileNotFound, w)
      | Some content \<Rightarrow>
          (case insertContent now rantText content of
             Inl e \<Rightarrow> (Inl e, w)
           | Inr content' \<Rightarrow>
               (Inr \<lparr> r_date = displayDate dt, r_time = time dt,
                      r_preview = take 50 rantText @ (if length rantText > 50 then lit ''...'' else []),
                      r_id = rantIdOf now, r_site = path cfg \<rparr>,
                w\<lparr> rants_file := Some content', trace := trace w @ [WriteRants] \<rparr>)))"

section \<open>Notions used to state the properties\<close>

text \<open>\<open>first_at l n s\<close>: the text \<open>l\<close> occurs in \<open>s\<close> at index \<open>n\<close> and at no index before.\<close>

definition first_at :: "jsstring \<Rightarrow> nat \<Rightarrow> jsstring \<Rightarrow> bool" where
  "first_at l n s = (prefix l (drop n s) \<and> (\<forall>k<n. \<not> prefix l (drop k s)))"

text \<open>The number of indices of \<open>s\<close> at which the text \<open>l\<close> occurs.\<close>

fun count_sub :: "jsstring \<Rightarrow> jsstring \<Rightarrow> nat" where
  "count_sub l [] = 0"
| "count_sub l (c # s) = (if prefix l (c # s) then 1 else 0) + count_sub l s"

text \<open>
  A header block as \<open>dateHeaderPattern\<close> describes it: the opening tag of the day
  section, the header element and the date label, with white space \<open>w1\<close>, \<open>w2\<close>, \<open>w3\<close>
  between the elements.
\<close>

definition headerBlock :: "jsstring \<Rightarrow> jsstring \<Rightarrow> jsstring \<Rightarrow> jsstring \<Rightarrow> jsstring \<Rightarrow> jsstring" where
  \<open>headerBlock d w1 w2 lbl w3 =
     dateTag d @ w1 @ lit ''<div class="date-header">'' @ w2 @ lit ''<span class="date">'' @ lbl
     @ lit ''</span>'' @ w3 @ lit ''</div>''\<close>

definition entryTag :: jsstring where
  \<open>entryTag = lit ''<div class="rant-entry"''\<close>

text \<open>The date key of an insertion at \<open>now\<close>, and the markup that the insertion builds.\<close>

definition dateKey :: "instant \<Rightarrow> jsstring" where
  "dateKey now = date (getCurrentDateTime now)"

definition newEntryHTML :: "instant \<Rightarrow> jsstring \<Rightarrow> jsstring" where
  "newEntryHTML now rantText = entryHTML (rantIdOf now) (time (getCurrentDateTime now)) rantText"

definition newDayHTML :: "instant \<Rightarrow> jsstring \<Rightarrow> jsstring" where
  "newDayHTML now rantText =
     dayHTML (date (getCurrentDateTime now)) (displayDate (getCurrentDateTime now))
       (rantIdOf now) (time (getCurrentDateTime now)) rantText"

text \<open>\<open>first_match r s t\<close>: the match that \<open>r\<close> reports at the start of \<open>s\<close> leaves \<open>t\<close>.\<close>

definition first_match :: "rx \<Rightarrow> jsstring \<Rightarrow> jsstring \<Rightarrow> bool" where
  "first_match r s t = (\<exists>rest. matches r s = t # rest)"

text \<open>
  \<open>no_div_open u\<close>: no \<open><\<close> in \<open>u\<close> is the last code unit of \<open>u\<close> or is followed by
  \<open>d\<close>, so that no opening \<open>div\<close> tag starts in \<open>u\<close>.
\<close>

fun no_div_open :: "jsstring \<Rightarrow> bool" where
  "no_div_open [] = True"
| "no_div_open [c] = (c \<noteq> 60)"
| "no_div_open (c # c' # s) = ((c = 60 \<longrightarrow> c' \<noteq> 100) \<and> no_div_open (c' # s))"

section \<open>Command line\<close>

record options =
  commit :: bool
  push :: bool
  editor :: bool
  guiEditor :: bool
  message :: "jsstring option"
  rantText :: "jsstring option"
  aiFormat :: bool
  site :: jsstring
  config :: bool
  showEnv :: bool

definition defaultOptions :: options where
  "defaultOptions =
     \<lparr> commit = False, push = False, editor = False, guiEditor = False, message = None,
       rantText = None, aiFormat = False, site = lit ''tourwithmark'', config = False,
       showEnv = False \<rparr>"

text \<open>\<open>args.slice(i).join(' ')\<close> on the arguments from position \<open>i\<close> on.\<close>

fun join_space :: "jsstring list \<Rightarrow> jsstring" where
  "join_space [] = []"
| "join_space [a] = a"
| "join_space (a # as) = a @ [32] @ join_space as"

text \<open>
  The loop of \<open>parseArgs\<close> over the arguments that are left. \<open>toLowerCase\<close> and the site
  table \<open>SITES\<close> (loaded from the configuration file) are parameters: \<open>sites s\<close> is the
  entry \<open>SITES[s]\<close>, \<open>None\<close> when it is missing. \<open>-h\<close> prints the help and exits with 0.
\<close>

fun parseLoop :: "(jsstring \<Rightarrow> jsstring) \<Rightarrow> (jsstring \<Rightarrow> siteConfig option) \<Rightarrow> jsstring list
    \<Rightarrow> options \<Rightarrow> halt + options" where
  "parseLoop toLowerCase sites [] opts = Inr opts"
| "parseLoop toLowerCase sites (a # rest) opts =
     (if a = lit ''-c'' \<or> a = lit ''--commit'' then
        parseLoop toLowerCase sites rest (opts\<lparr>commit := True\<rparr>)
      else if a = lit ''-p'' \<or> a = lit ''--push'' then
        parseLoop toLowerCase sites rest (opts\<lparr>push := True, commit := True\<rparr>)
      else if a = lit ''-e'' \<or> a = lit ''--editor'' then
        parseLoop toLowerCase sites rest (opts\<lparr>editor := True\<rparr>)
      else if a = lit ''--gui'' then
        parseLoop toLowerCase sites rest (opts\<lparr>guiEditor := True, editor := True\<rparr>)
      else if a = lit ''-m'' \<or> a = lit ''--message'' then
        (case rest of
           [] \<Rightarrow> Inr opts
         | v # rest' \<Rightarrow> parseLoop toLowerCase sites rest' (opts\<lparr>message := Some v\<rparr>))
      else if a = lit ''-f'' \<or> a = lit ''--format'' then
        parseLoop toLowerCase sites rest (opts\<lparr>aiFormat := True\<rparr>)
      else if a = lit ''-s'' \<or> a = lit ''--site'' then
        (case rest of
           [] \<Rightarrow> Inr opts
         | v # rest' \<Rightarrow>
             (if sites (toLowerCase v) \<noteq> None
              then parseLoop toLowerCase sites rest' (opts\<lparr>site := toLowerCase v\<rparr>)
              else Inl UnknownSite))
      else if a = lit ''--config'' then
        parseLoop toLowerCase sites rest (opts\<lparr>config := True\<rparr>)
      else if a = lit ''--env'' then
        parseLoop toLowerCase sites rest (opts\<lparr>showEnv := True\<rparr>)
      else if a = lit ''-h'' \<or> a = lit ''--help'' then Inl HelpShown
      else if \<not> startsWith a (lit ''-'') then Inr (opts\<lparr>rantText := Some (join_space (a # rest))\<rparr>)
      else parseLoop toLowerCase sites rest opts)"

definition parseArgs :: "(jsstring \<Rightarrow> jsstring) \<Rightarrow> (jsstring \<Rightarrow> siteConfig option) \<Rightarrow> jsstring list
    \<Rightarrow> halt + options" where
  "parseArgs toLowerCase sites args = parseLoop toLowerCase sites args defaultOptions"

text \<open>
  The default site table of \<open>loadSiteConfigurations\<close> under a base directory, and
  lower-casing of the ASCII letters; they instantiate the parameters of \<open>parseArgs\<close> in
  concrete runs that have no \<open>-s\<close> flag. They are narrower than JavaScript:
  \<open>SITES[site]\<close> also finds inherited properties of the object such as \<open>constructor\<close>,
  and \<open>toLowerCase\<close> maps letters outside ASCII as well. No general statement uses them.
\<close>

definition defaultSites :: "jsstring \<Rightarrow> jsstring \<Rightarrow> siteConfig option" where
  "defaultSites baseDir s =
     (if s = lit ''tourwithmark'' then
        Some \<lparr>path = baseDir @ lit ''/tourwithmark_2025'', filename = lit ''rants.qmd'',
              branch = lit ''main''\<rparr>
      else if s = lit ''markforchange'' then
        Some \<lparr>path = baseDir @ lit ''/markforchange/markforchange'', filename = lit ''rants.qmd'',
              branch = lit ''main''\<rparr>
      else if s = lit ''markgingrass'' then
        Some \<lparr>path = baseDir @ lit ''/markgingrass'', filename = lit ''rants.qmd'',
              branch = lit ''main''\<rparr>
      else None)"

definition asciiLower :: "jsstring \<Rightarrow> jsstring" where
  "asciiLower s = map (\<lambda>c. if 65 \<le> c \<and> c \<le> 90 then c + 32 else c) s"

text \<open>
  \<open>flag_prefix pre\<close>: every argument of \<open>pre\<close> that the loop reads in flag position starts
  with \<open>-\<close>, and each \<open>-m\<close>, \<open>--message\<close>, \<open>-s\<close>, \<open>--site\<close> has its value inside \<open>pre\<close>.
  \<open>claimedRantText\<close> is the rant text as the unamended reading has it: everything from
  the first argument that does not start with \<open>-\<close>.
\<close>

fun flag_prefix :: "jsstring list \<Rightarrow> bool" where
  "flag_prefix [] = True"
| "flag_prefix (a # rest) =
     (startsWith a (lit ''-'')
      \<and> (if a = lit ''-m'' \<or> a = lit ''--message'' \<or> a = lit ''-s'' \<or> a = lit ''--site''
         then (case rest of [] \<Rightarrow> False | v # rest' \<Rightarrow> flag_prefix rest')
         else flag_prefix rest))"

definition claimedRantText :: "jsstring list \<Rightarrow> jsstring" where
  "claimedRantText args = join_space (dropWhile (\<lambda>a. startsWith a (lit ''-'')) args)"

section \<open>Synchronization Orchestrator\<close>

text \<open>
  What the run cannot decide by itself comes from the environment: the clock, standard
  input, the editor, the AI formatter, and the outcome of each external command.
  \<open>git_pull\<close> gives whether the pull succeeded and the document file as git left it;
  \<open>git_status\<close> gives the output of \<open>git status --porcelain\<close>, or \<open>None\<close> when the
  command fails. Each trace event records a command that was started.
\<close>

record env =
  clock :: instant
  stdin :: "jsstring option"
  openEditor :: "bool \<Rightarrow> jsstring option"
  formatWithAI :: "jsstring \<Rightarrow> jsstring"
  manageConfig_ok :: bool
  chdir_ok :: bool
  git_pull :: "jsstring option \<Rightarrow> bool \<times> jsstring option"
  git_status :: "jsstring option \<Rightarrow> jsstring option"
  git_add_ok :: bool
  git_commit_ok :: bool
  git_push_ok :: bool
  localeString :: jsstring

definition truthy :: "jsstring option \<Rightarrow> bool" where
  "truthy v = (case v of None \<Rightarrow> False | Some s \<Rightarrow> s \<noteq> [])"

definition gitOperations :: "env \<Rightarrow> bool \<Rightarrow> bool \<Rightarrow> jsstring option \<Rightarrow> siteConfig \<Rightarrow> world
    \<Rightarrow> (halt + unit) \<times> world" where
  "gitOperations e commit_flag push_flag msg cfg w =
     (if \<not> chdir_ok e then (Inl GitFailed, w)
      else
        let w1 = w\<lparr>trace := trace w @ [GitStatus]\<rparr> in
        case git_status e (rants_file w) of
          None \<Rightarrow> (Inl GitFailed, w1)
        | Some status \<Rightarrow>
            if \<not> js_includes status (filename cfg) then (Inr (), w1)
            else
              let w2 = w1\<lparr>trace := trace w1 @ [GitAdd (filename cfg)]\<rparr> in
              if \<not> git_add_ok e then (Inl GitFailed, w2)
              else if commit_flag then
                let commitMessage =
                      (if truthy msg then to_text msg else lit ''Add rant: '' @ localeString e);
                    w3 = w2\<lparr>trace := trace w2 @ [GitCommit commitMessage]\<rparr> in
                if \<not> git_commit_ok e then (Inl GitFailed, w3)
                else if push_flag then
                  let w4 = w3\<lparr>trace := trace w3 @ [GitPush (branch cfg)]\<rparr> in
                  if \<not> git_push_ok e then (Inl GitFailed, w4) else (Inr (), w4)
                else (Inr (), w3)
              else (Inr (), w2))"

text \<open>The pull that \<open>main\<close> runs first when a push was requested.\<close>

definition pullFirst :: "env \<Rightarrow> siteConfig \<Rightarrow> world \<Rightarrow> (halt + unit) \<times> world" where
  "pullFirst e cfg w =
     (if \<not> chdir_ok e then (Inl PullFailed, w)
      else
        let (ok, doc) = git_pull e (rants_file w);
            w1 = w\<lparr>rants_file := doc, trace := trace w @ [GitPull (branch cfg)]\<rparr> in
        if ok then (Inr (), w1) else (Inl PullFailed, w1))"

text \<open>\<open>main\<close> from the point where the rant text is known (lines 662 to 691).\<close>

definition publish :: "env \<Rightarrow> options \<Rightarrow> siteConfig \<Rightarrow> jsstring \<Rightarrow> world \<Rightarrow> (halt + unit) \<times> world" where
  "publish e opts cfg text0 w =
     (let text1 = (if aiFormat opts then formatWithAI e (trim text0) else text0) in
      case (if push opts then pullFirst e cfg w else (Inr (), w)) of
        (Inl x, w1) \<Rightarrow> (Inl x, w1)
      | (Inr _, w1) \<Rightarrow>
          (case insertRant (clock e) (trim text1) cfg w1 of
             (Inl x, w2) \<Rightarrow> (Inl x, w2)
           | (Inr result, w2) \<Rightarrow>
               if commit opts \<or> push opts
               then gitOperations e (commit opts) (push opts) (message opts) cfg w2
               else (Inr (), w2)))"

definition main :: "env \<Rightarrow> (jsstring \<Rightarrow> jsstring) \<Rightarrow> (jsstring \<Rightarrow> siteConfig option) \<Rightarrow> jsstring list
    \<Rightarrow> world \<Rightarrow> (halt + unit) \<times> world" where
  "main e toLowerCase sites args w =
     (case parseArgs toLowerCase sites args of
        Inl x \<Rightarrow> (Inl x, w)
      | Inr opts \<Rightarrow>
          if showEnv opts then (Inr (), w)
          else if config opts then
            (if manageConfig_ok e then (Inr (), w) else (Inl ConfigFailed, w))
          else
            (case sites (site opts) of
               None \<Rightarrow> (Inl SiteMissing, w)
             | Some cfg \<Rightarrow>
                 let r0 = rantText opts;
                     r1 = (if \<not> truthy r0 \<and> \<not> editor opts then stdin e else r0)
                 in if \<not> truthy r1 \<and> editor opts \<and> openEditor e (guiEditor opts) = None
                    then (Inl EditorFailed, w)
                    else
                      let r2 = (if \<not> truthy r1 \<and> editor opts
                                then openEditor e (guiEditor opts) else r1)
                      in if \<not> truthy r2 \<or> trim (to_text r2) = [] then (Inl NoRantText, w)
                         else publish e opts cfg (to_text r2) w))"

section \<open>The status of one file\<close>




section \<open>Three concrete environments\<close>

text \<open>
  \<open>pullFailsEnv\<close>: the pull fails and leaves the document file as it is.
  \<open>otherFilesEnv\<close>: every command succeeds, and the status output lists two other files.
  \<open>backupFileEnv\<close>: the status output lists the untracked file \<open>rants.qmd.bak\<close> only, so
  that \<open>git add\<close> stages nothing and \<open>git commit\<close> fails.
\<close>

definition pullFailsEnv :: env where
  "pullFailsEnv =
     \<lparr> clock = \<lparr>year = 2024, month = 0, day = 15, hours = 9, minutes = 5, epoch_ms = 1705309500000\<rparr>,
       stdin = None, openEditor = (\<lambda>gui. None), formatWithAI = (\<lambda>s. s),
       manageConfig_ok = True, chdir_ok = True,
       git_pull = (\<lambda>doc. (False, doc)), git_status = (\<lambda>doc. Some (lit '' M rants.qmd'')),
       git_add_ok = True, git_commit_ok = True, git_push_ok = True,
       localeString = lit ''1/15/2024, 9:05:00 AM'' \<rparr>"



section \<open>Searching for a literal\<close>

declare matches.simps(8) [simp del]

lemma matches_Str_Nil: "matches (Str l) s = [] \<longleftrightarrow> \<not> prefix l s"
  by simp

lemma exec_from_Str_None: "exec_from (Str l) s i = None \<longleftrightarrow> \<not> sublist l s"
proof (induction s arbitrary: i)
  case Nil
  show ?case by (simp add: exec_from.simps)
next
  case (Cons c s)
  show ?case
    by (subst exec_from.simps) (simp add: Cons.IH sublist_Cons_right)
qed

lemma exec_from_Str_Some:
  "exec_from (Str l) s i = Some (j, m) \<Longrightarrow>
     m = l \<and> i \<le> j \<and> j - i + length l \<le> length s \<and> prefix l (drop (j - i) s)
     \<and> (\<forall>k < j - i. \<not> prefix l (drop k s))"
proof (induction s arbitrary: i)
  case Nil
  then show ?case by (simp add: exec_from.simps split: if_splits)
next
  case (Cons c s)
  show ?case
  proof (cases "prefix l (c # s)")
    case True
    with Cons.prems have "j = i" "m = take (length (c # s) - length (drop (length l) (c # s))) (c # s)"
      by (simp_all add: exec_from.simps)
    moreover from True have "length l \<le> length (c # s)" by (rule prefix_length_le)
    ultimately show ?thesis using True
      by (auto simp: prefix_def)
  next
    case False
    with Cons.prems have ex: "exec_from (Str l) s (Suc i) = Some (j, m)"
      by (simp add: exec_from.simps)
    from Cons.IH[OF ex] have ih: "m = l" "Suc i \<le> j" "j - Suc i + length l \<le> length s"
      "prefix l (drop (j - Suc i) s)" "\<forall>k < j - Suc i. \<not> prefix l (drop k s)" by auto
    have eq: "j - i = Suc (j - Suc i)" using ih(2) by simp
    have "\<not> prefix l (drop k (c # s))" if "k < j - i" for k
    proof (cases k)
      case 0 then show ?thesis using False by simp
    next
      case (Suc k') then show ?thesis using ih(5) that eq by simp
    qed
    then show ?thesis using ih eq by simp
  qed
qed

lemma js_match_Str_None: "js_match s (Str l) = None \<longleftrightarrow> \<not> sublist l s"
  by (simp add: js_match_def exec_from_Str_None)

lemma plan_undefined_both:
  "fst (plan now rt content ts) = None \<longleftrightarrow> snd (plan now rt content ts) = None"
  by (simp add: plan_def Let_def split: option.splits prod.splits)

lemma plan_html_cases:
  "snd (plan now rt content ts) = Some html \<Longrightarrow>
     html = entryHTML (rantIdOf now) (time (getCurrentDateTime now)) rt
     \<or> html = dayHTML (date (getCurrentDateTime now)) (displayDate (getCurrentDateTime now))
                (rantIdOf now) (time (getCurrentDateTime now)) rt"
  by (auto simp: plan_def Let_def split: option.splits prod.splits)

section \<open>The planner fails fast without the container\<close>

lemmas eval_defs = insertContent_def js_match_def exec_from.simps matches.simps(8)
  timelineRegex_def plan_def
  datePattern_def dateHeaderPattern_def firstDateRegex_def
  containerMarker_def dayTag_def dateTag_def splice_def slice_to_def slice_from_def
  to_text_def Plus_def is_space_def Let_def

lemmas clock_defs = getCurrentDateTime_def rantIdOf_def dec.simps padStart2_def monthNames_def

text \<open>
  C1. When the document text does not contain the container marker, \<open>insertRant\<close> exits
  with \<open>TimelineNotFound\<close>, whose exit code is not zero, and the world is the one it
  started from: the document file keeps its content and the trace gets no write event.
\<close>

theorem insert_missing_container:
  assumes "rants_file w = Some content"
    and \<open>\<not> sublist containerMarker content\<close>
  shows "insertContent now rt content = Inl TimelineNotFound
     \<and> insertRant now rt cfg w = (Inl TimelineNotFound, w)
     \<and> exit_code TimelineNotFound \<noteq> 0"
proof -
  have "js_match content timelineRegex = None"
    using assms(2) by (simp add: timelineRegex_def js_match_Str_None)
  then have "insertContent now rt content = Inl TimelineNotFound"
    by (simp add: insertContent_def)
  then show ?thesis using assms(1) by (simp add: insertRant_def Let_def)
qed

theorem insert_missing_container_witness:
  \<open>insertRant \<lparr>year = 2024, month = 0, day = 15, hours = 9, minutes = 5, epoch_ms = 1705309500000\<rparr>
      (lit ''hello'') \<lparr>path = lit ''/site'', filename = lit ''rants.qmd'', branch = lit ''main''\<rparr>
      \<lparr>rants_file = Some (lit ''# Rants <div class="rants">''), trace = []\<rparr>
    = (Inl TimelineNotFound, \<lparr>rants_file = Some (lit ''# Rants <div class="rants">''), trace = []\<rparr>)\<close>
proof -
  have h: \<open>\<not> sublist containerMarker (lit ''# Rants <div class="rants">'')\<close>
    by (simp add: containerMarker_def lit_def sublist_code)
  show ?thesis
    using insert_missing_container[OF _ h, of \<open>\<lparr>rants_file = Some (lit ''# Rants <div class="rants">''), trace = []\<rparr>\<close>]
    by simp
qed

section \<open>A day section without its header\<close>

text \<open>
  C5. The document below has the container and the opening tag of the day section of
  2024-01-15, but no header block after it. \<open>insertRant\<close> has no branch for this case:
  position and markup stay undefined, and the splice yields the old content, the text
  \<open>undefined\<close> and the old content once more, which is then written to the file. The
  claim (no insertion, nothing written, a structural failure) does not hold here.
\<close>

theorem malformed_section_corrupts:
  \<open>snd (insertRant
      \<lparr>year = 2024, month = 0, day = 15, hours = 9, minutes = 5, epoch_ms = 1705309500000\<rparr>
      (lit ''hi'') \<lparr>path = lit ''/site'', filename = lit ''rants.qmd'', branch = lit ''main''\<rparr>
      \<lparr>rants_file = Some (lit ''<div class="rants-timeline"><div class="rant-day" data-date="2024-01-15"></div></div>''),
       trace = []\<rparr>)
    = \<lparr>rants_file = Some (
         lit ''<div class="rants-timeline"><div class="rant-day" data-date="2024-01-15"></div></div>''
         @ lit ''undefined''
         @ lit ''<div class="rants-timeline"><div class="rant-day" data-date="2024-01-15"></div></div>''),
       trace = [WriteRants]\<rparr>\<close>
  by (simp add: insertRant_def eval_defs clock_defs lit_def)

section \<open>Auto-linking\<close>

lemma matches_suffix: "t \<in> set (matches r s) \<Longrightarrow> suffix t s"
proof (induction r s arbitrary: t rule: matches.induct)
  case (1 s)
  then show ?case by simp
next
  case (2 c s)
  then show ?case by (auto split: list.splits if_splits intro: suffix_ConsI)
next
  case (3 l s)
  then show ?case by (auto split: if_splits intro: suffix_drop)
next
  case (4 p s)
  then show ?case by (auto split: list.splits if_splits intro: suffix_ConsI)
next
  case (5 a b s)
  from "5.prems" obtain u where u: "u \<in> set (matches a s)" "t \<in> set (matches b u)"
    by auto
  from "5.IH"(1)[OF u(1)] "5.IH"(2)[OF u] show ?case by (rule suffix_order.trans[rotated])
next
  case (6 a b s)
  then show ?case by auto
next
  case (7 a s)
  then show ?case by auto
next
  case (8 a s)
  from "8.prems" consider "t = s"
    | u where "u \<in> set (matches a s)" "length u < length s" "t \<in> set (matches (Star a) u)"
    unfolding matches.simps(8)[of a s] by (auto split: if_splits)
  then show ?case
  proof cases
    case 1
    then show ?thesis by simp
  next
    case 2
    from "8.IH"(1)[OF 2(1)] "8.IH"(2)[OF 2] show ?thesis by (rule suffix_order.trans[rotated])
  qed
next
  case (9 a s)
  then show ?case by simp
next
  case (10 n a s)
  from "10.prems" consider "t = s"
    | u where "u \<in> set (matches a s)" "t \<in> set (matches (Upto n a) u)"
    by auto
  then show ?case
  proof cases
    case 1
    then show ?thesis by simp
  next
    case 2
    from "10.IH"(1)[OF 2(1)] "10.IH"(2)[OF 2] show ?thesis by (rule suffix_order.trans[rotated])
  qed
qed

lemma matches_length_le: "t \<in> set (matches r s) \<Longrightarrow> length t \<le> length s"
  by (drule matches_suffix) (rule suffix_length_le)

lemma matches_Seq_shorter:
  assumes "\<And>u. u \<in> set (matches a s) \<Longrightarrow> length u < length s"
    and "t \<in> set (matches (Seq a b) s)"
  shows "length t < length s"
proof -
  from assms(2) obtain u where u: "u \<in> set (matches a s)" "t \<in> set (matches b u)"
    by auto
  from matches_length_le[OF u(2)] assms(1)[OF u(1)] show ?thesis by simp
qed

lemma matches_Str_shorter:
  "l \<noteq> [] \<Longrightarrow> u \<in> set (matches (Str l) s) \<Longrightarrow> length u < length s"
  by (cases s) (auto split: if_splits simp: prefix_def)

lemma matches_Cls_shorter: "u \<in> set (matches (Cls p) s) \<Longrightarrow> length u < length s"
  by (cases s) (auto split: if_splits)

lemma matches_Alt_iff:
  "t \<in> set (matches (Alt a b) s) \<longleftrightarrow> t \<in> set (matches a s) \<or> t \<in> set (matches b s)"
  by simp

lemma urlRegex_nonempty:
  assumes "t \<in> set (matches urlRegex s)"
  shows "length t < length s"
proof -
  obtain a1 a2 l3 a3 where split: "urlRegex = Alt (Seq (Str (lit ''http'')) a1)
      (Alt (Seq (Str (lit ''www.'')) a2) (Seq (Seq (Seq (Cls is_alnum) l3) (Star (Seq (Cls is_alnum) l3))) a3))"
    by (simp add: urlRegex_def Plus_def)
  from assms consider
      "t \<in> set (matches (Seq (Str (lit ''http'')) a1) s)"
    | "t \<in> set (matches (Seq (Str (lit ''www.'')) a2) s)"
    | "t \<in> set (matches (Seq (Seq (Seq (Cls is_alnum) l3) (Star (Seq (Cls is_alnum) l3))) a3) s)"
    unfolding split matches_Alt_iff by blast
  then show ?thesis
  proof cases
    case 1
    show ?thesis
      by (rule matches_Seq_shorter[OF _ 1], erule matches_Str_shorter[rotated]) (simp add: lit_def)
  next
    case 2
    show ?thesis
      by (rule matches_Seq_shorter[OF _ 2], erule matches_Str_shorter[rotated]) (simp add: lit_def)
  next
    case 3
    show ?thesis
      by (rule matches_Seq_shorter[OF _ 3], erule matches_Seq_shorter[rotated],
          erule matches_Seq_shorter[rotated], erule matches_Cls_shorter)
  qed
qed

lemma replace_all_no_match:
  "(\<forall>k\<le>length s. matches r (drop k s) = []) \<Longrightarrow> replace_all r f s = s"
proof (induction s)
  case Nil
  then show ?case by (simp add: replace_all.simps)
next
  case (Cons c s)
  from Cons.prems have 0: "matches r (c # s) = []" by (metis drop0 le0)
  have "\<forall>k\<le>length s. matches r (drop k s) = []"
  proof (intro allI impI)
    fix k assume "k \<le> length s"
    then have "Suc k \<le> length (c # s)" by simp
    from Cons.prems[rule_format, OF this] show "matches r (drop k s) = []" by simp
  qed
  from Cons.IH[OF this] 0 show ?case by (subst replace_all.simps) simp
qed

lemma replace_all_skip:
  "(\<forall>k<length pre. matches r (drop k (pre @ s)) = []) \<Longrightarrow>
     replace_all r f (pre @ s) = pre @ replace_all r f s"
proof (induction pre)
  case Nil
  then show ?case by simp
next
  case (Cons c pre)
  from Cons.prems have 0: "matches r (c # pre @ s) = []" by (metis append_Cons drop0 length_greater_0_conv list.distinct(1))
  have "\<forall>k<length pre. matches r (drop k (pre @ s)) = []"
  proof (intro allI impI)
    fix k assume "k < length pre"
    then have "Suc k < length (c # pre)" by simp
    from Cons.prems[rule_format, OF this] show "matches r (drop k (pre @ s)) = []" by simp
  qed
  from Cons.IH[OF this] 0 show ?case by (subst replace_all.simps) simp
qed

lemma exec_from_None_iff:
  "exec_from r s i = None \<longleftrightarrow> (\<forall>k\<le>length s. matches r (drop k s) = [])"
proof (induction s arbitrary: i)
  case Nil
  show ?case by (subst exec_from.simps) (simp split: list.splits)
next
  case (Cons c s)
  have "(\<forall>k\<le>length (c # s). matches r (drop k (c # s)) = [])
      \<longleftrightarrow> matches r (c # s) = [] \<and> (\<forall>k\<le>length s. matches r (drop k s) = [])"
    (is "?L \<longleftrightarrow> ?R")
  proof
    assume l: ?L
    have "matches r (drop k s) = []" if "k \<le> length s" for k
      using l[rule_format, of "Suc k"] that by simp
    moreover have "matches r (c # s) = []" using l[rule_format, of 0] by simp
    ultimately show ?R by simp
  next
    assume r: ?R
    show ?L
    proof (intro allI impI)
      fix k assume "k \<le> length (c # s)"
      then show "matches r (drop k (c # s)) = []" using r by (cases k) simp_all
    qed
  qed
  then show ?case
    by (subst exec_from.simps) (simp add: Cons.IH split: list.splits)
qed

lemma matches_Upto_numeral:
  "matches (Upto (numeral k) a) s
     = concat (map (matches (Upto (pred_numeral k) a)) (matches a s)) @ [s]"
  by (simp add: numeral_eq_Suc)

lemmas url_defs = matches.simps(8) matches_Upto_numeral urlRegex_def url_tail_def host_def pchar_def qchar_def pct_def Plus_def
  is_digit_def is_alpha_def is_alnum_def is_word_def is_hex_def

lemma stripTrailing_split:
  "stripTrailing m @ drop (length (stripTrailing m)) m = m"
  "\<forall>c\<in>set (drop (length (stripTrailing m)) m). is_punct c"
  "stripTrailing m = [] \<or> \<not> is_punct (last (stripTrailing m))"
proof -
  have m: "m = rev (dropWhile is_punct (rev m)) @ rev (takeWhile is_punct (rev m))"
    by (metis rev_append rev_rev_ident takeWhile_dropWhile_id)
  then have d: "drop (length (stripTrailing m)) m = rev (takeWhile is_punct (rev m))"
    by (metis append_eq_conv_conj stripTrailing_def)
  show "stripTrailing m @ drop (length (stripTrailing m)) m = m"
    using m d by (simp add: stripTrailing_def)
  show "\<forall>c\<in>set (drop (length (stripTrailing m)) m). is_punct c"
    unfolding d by (auto dest: set_takeWhileD)
  show "stripTrailing m = [] \<or> \<not> is_punct (last (stripTrailing m))"
  proof (cases "dropWhile is_punct (rev m)")
    case Nil
    then show ?thesis by (simp add: stripTrailing_def)
  next
    case (Cons x xs)
    then have "\<not> is_punct x" by (metis hd_dropWhile list.distinct(1) list.sel(1))
    with Cons show ?thesis by (simp add: stripTrailing_def)
  qed
qed

lemma punct_no_url: "is_punct c \<Longrightarrow> matches urlRegex (c # s) = []"
proof -
  assume "is_punct c"
  then have c: "\<not> is_alnum c" "c \<noteq> 104" "c \<noteq> 119"
    by (auto simp: is_punct_def lit_def is_alnum_def is_alpha_def is_digit_def)
  obtain a1 a2 l3 a3 where split: "urlRegex = Alt (Seq (Str (lit ''http'')) a1)
      (Alt (Seq (Str (lit ''www.'')) a2)
           (Seq (Seq (Seq (Cls is_alnum) l3) (Star (Seq (Cls is_alnum) l3))) a3))"
    by (simp add: urlRegex_def Plus_def)
  show ?thesis unfolding split using c by (simp add: lit_def)
qed

lemma autoLinkUrls_step:
  assumes "matches urlRegex s = t # ts"
  shows "\<exists>m. s = m @ t \<and> m \<noteq> [] \<and> autoLinkUrls s = linkUrl m @ autoLinkUrls t"
proof -
  from assms have mem: "t \<in> set (matches urlRegex s)" by simp
  then have lt: "length t < length s" by (rule urlRegex_nonempty)
  from matches_suffix[OF mem] obtain m where m: "s = m @ t" by (auto simp: suffix_def)
  with lt have ne: "m \<noteq> []" by auto
  have "take (length s - length t) s = m" using m by simp
  then have "autoLinkUrls s = linkUrl m @ autoLinkUrls t"
    unfolding autoLinkUrls_def using assms lt by (subst replace_all.simps) simp
  with m ne show ?thesis by blast
qed

section \<open>Text without a URL passes through\<close>

text \<open>
  C9. When \<open>urlRegex\<close> has no match in the raw text, that is, the text contains no URL,
  no \<open>www.\<close> host and no bare domain, \<open>autoLinkUrls\<close> returns the text as it is: nothing is
  escaped, and markup in the text is kept.
\<close>

theorem autolink_identity:
  assumes "js_match s urlRegex = None"
  shows "autoLinkUrls s = s"
  using assms unfolding js_match_def exec_from_None_iff autoLinkUrls_def
  by (rule replace_all_no_match)

theorem autolink_identity_witness:
  \<open>autoLinkUrls (lit ''<b>Hi</b> & "x"'') = lit ''<b>Hi</b> & "x"''\<close>
proof -
  have h: \<open>js_match (lit ''<b>Hi</b> & "x"'') urlRegex = None\<close>
    by (simp add: js_match_def exec_from.simps lit_def url_defs)
  from autolink_identity[OF h] show ?thesis .
qed

section \<open>Trailing punctuation stays outside the link\<close>

text \<open>
  C7. Let the raw text be \<open>pre @ s\<close>, with no match of \<open>urlRegex\<close> starting inside \<open>pre\<close>
  and a match at the start of \<open>s\<close> that leaves \<open>t\<close>. Then the matched token \<open>m\<close> is not
  empty and splits into \<open>clean\<close> and a run \<open>trailing\<close> of the characters \<open>. , ; : ! ?\<close>,
  where \<open>clean\<close> does not end with one of them. The output is \<open>pre\<close>, an anchor whose target is
  \<open>clean\<close>, prefixed with \<open>https://\<close> when it has no scheme, and whose text is \<open>clean\<close>, then
  \<open>trailing\<close> after the closing tag, then the linked rest \<open>t\<close>. A punctuation character
  that follows the token outside the match is copied as it is, so it comes after the
  closing tag as well. The witness is the example of the claim.
\<close>

theorem autolink_trailing_punctuation:
  assumes "\<forall>k<length pre. matches urlRegex (drop k (pre @ s)) = []"
    and "matches urlRegex s = t # ts"
  shows \<open>\<exists>m clean trailing.
     s = m @ t \<and> m \<noteq> [] \<and> clean = stripTrailing m \<and> m = clean @ trailing
     \<and> (\<forall>c\<in>set trailing. is_punct c) \<and> (clean = [] \<or> \<not> is_punct (last clean))
     \<and> autoLinkUrls (pre @ s) =
         pre @ lit ''<a href="''
         @ (if \<not> startsWith clean (lit ''http://'') \<and> \<not> startsWith clean (lit ''https://'')
               \<and> \<not> startsWith clean (lit ''ftp://'')
            then lit ''https://'' @ clean else clean)
         @ lit ''" target="_blank" rel="noopener noreferrer">'' @ clean @ lit ''</a>''
         @ trailing @ autoLinkUrls t
     \<and> (\<forall>c u. is_punct c \<longrightarrow> autoLinkUrls (c # u) = c # autoLinkUrls u)\<close>
proof -
  from autoLinkUrls_step[OF assms(2)] obtain m
    where m: "s = m @ t" "m \<noteq> []" "autoLinkUrls s = linkUrl m @ autoLinkUrls t" by blast
  define clean where "clean = stripTrailing m"
  define trailing where "trailing = drop (length clean) m"
  have sp: "m = clean @ trailing" "\<forall>c\<in>set trailing. is_punct c"
    "clean = [] \<or> \<not> is_punct (last clean)"
    using stripTrailing_split[of m] by (simp_all add: clean_def trailing_def)
  have pre: "autoLinkUrls (pre @ s) = pre @ autoLinkUrls s"
    unfolding autoLinkUrls_def by (rule replace_all_skip) (rule assms(1))
  have punct: "autoLinkUrls (c # u) = c # autoLinkUrls u" if "is_punct c" for c u
    unfolding autoLinkUrls_def using punct_no_url[OF that, of u]
    by (subst replace_all.simps) simp
  have \<open>autoLinkUrls (pre @ s) =
         pre @ lit ''<a href="''
         @ (if \<not> startsWith clean (lit ''http://'') \<and> \<not> startsWith clean (lit ''https://'')
               \<and> \<not> startsWith clean (lit ''ftp://'')
            then lit ''https://'' @ clean else clean)
         @ lit ''" target="_blank" rel="noopener noreferrer">'' @ clean @ lit ''</a>''
         @ trailing @ autoLinkUrls t\<close>
    unfolding pre m(3) by (simp add: linkUrl_def Let_def clean_def trailing_def)
  with m(1,2) sp punct show ?thesis unfolding clean_def by blast
qed

theorem autolink_trailing_punctuation_witness:
  \<open>autoLinkUrls (lit ''See https://example.com/a,b.'')
     = lit ''See <a href="https://example.com/a,b" target="_blank" rel="noopener noreferrer">https://example.com/a,b</a>.''\<close>
proof -
  have hA: "\<forall>k<length (lit ''See ''). 
      matches urlRegex (drop k (lit ''See '' @ lit ''https://example.com/a,b.'')) = []"
  proof (intro allI impI)
    fix k :: nat assume "k < length (lit ''See '')"
    then have "k < 4" by (simp add: lit_def)
    then consider "k = 0" | "k = 1" | "k = 2" | "k = 3" by linarith
    then show "matches urlRegex (drop k (lit ''See '' @ lit ''https://example.com/a,b.'')) = []"
      by cases (simp_all add: lit_def url_defs)
  qed
  have "\<exists>ts. matches urlRegex (lit ''https://example.com/a,b.'') = [] # ts"
    by (simp add: lit_def url_defs)
  then obtain ts where hB: "matches urlRegex (lit ''https://example.com/a,b.'') = [] # ts" ..
  have e: "autoLinkUrls [] = []"
    by (simp add: autoLinkUrls_def replace_all.simps url_defs lit_def)
  have st: "stripTrailing (lit ''https://example.com/a,b.'') = lit ''https://example.com/a,b''"
    by (simp add: stripTrailing_def is_punct_def lit_def)
  from autolink_trailing_punctuation[OF hA hB] obtain m clean trailing where
    r: "lit ''https://example.com/a,b.'' = m @ []" "clean = stripTrailing m" "m = clean @ trailing"
      \<open>autoLinkUrls (lit ''See '' @ lit ''https://example.com/a,b.'') =
         lit ''See '' @ lit ''<a href="''
         @ (if \<not> startsWith clean (lit ''http://'') \<and> \<not> startsWith clean (lit ''https://'')
               \<and> \<not> startsWith clean (lit ''ftp://'')
            then lit ''https://'' @ clean else clean)
         @ lit ''" target="_blank" rel="noopener noreferrer">'' @ clean @ lit ''</a>''
         @ trailing @ autoLinkUrls []\<close>
    by blast
  from r(1) have m: "m = lit ''https://example.com/a,b.''" by simp
  with r(2) st have c: "clean = lit ''https://example.com/a,b''" by simp
  from r(3) m c have t: "trailing = lit ''.''" by (simp add: lit_def)
  show ?thesis using r(4) unfolding c t e by (simp add: lit_def startsWith_def)
qed

section \<open>Locating a match\<close>

lemma exec_from_hit:
  "matches r s = t # rest \<Longrightarrow> exec_from r s i = Some (i, take (length s - length t) s)"
  by (subst exec_from.simps) simp

lemma exec_from_skip:
  "(\<forall>k<n. matches r (drop k s) = []) \<Longrightarrow> n \<le> length s \<Longrightarrow>
     exec_from r s i = exec_from r (drop n s) (i + n)"
proof (induction n arbitrary: s i)
  case 0
  then show ?case by simp
next
  case (Suc n)
  from Suc.prems(2) obtain c s' where s: "s = c # s'" by (cases s) auto
  from Suc.prems(1) have 0: "matches r s = []" by (metis drop0 zero_less_Suc)
  have "\<forall>k<n. matches r (drop k s') = []"
  proof (intro allI impI)
    fix k assume "k < n"
    then have "Suc k < Suc n" by simp
    from Suc.prems(1)[rule_format, OF this] show "matches r (drop k s') = []" by (simp add: s)
  qed
  from Suc.IH[OF this, of "Suc i"] Suc.prems(2) 0 show ?case
    by (subst exec_from.simps) (simp add: s)
qed

lemma first_at_le: "first_at l n s \<Longrightarrow> n \<le> length s"
proof (rule ccontr)
  assume f: "first_at l n s" and "\<not> n \<le> length s"
  then have n: "length s < n" by simp
  then have "drop n s = []" by simp
  with f have "l = []" by (simp add: first_at_def)
  moreover from n have "0 < n" by simp
  ultimately show False using f by (auto simp: first_at_def)
qed

lemma first_at_js_match:
  assumes "first_at l n s"
  shows "js_match s (Str l) = Some (n, l)"
proof -
  from assms have p: "prefix l (drop n s)" and b: "\<forall>k<n. matches (Str l) (drop k s) = []"
    by (simp_all add: first_at_def)
  from p obtain z where z: "drop n s = l @ z" by (auto simp: prefix_def)
  have "exec_from (Str l) s 0 = exec_from (Str l) (drop n s) (0 + n)"
    by (rule exec_from_skip[OF b first_at_le[OF assms]])
  also have "\<dots> = Some (n, l)"
    by (subst exec_from_hit[of "Str l" _ z "[]"]) (simp_all add: z)
  finally show ?thesis by (simp add: js_match_def)
qed

lemma js_match_first_at:
  assumes "js_match s (Str l) = Some (n, m)"
  shows "first_at l n s \<and> m = l"
  using exec_from_Str_Some[of l s 0 n m] assms by (simp add: js_match_def first_at_def)

lemma sublist_first_at: "sublist l s \<Longrightarrow> \<exists>n. first_at l n s"
proof -
  assume "sublist l s"
  then have "js_match s (Str l) \<noteq> None" by (simp add: js_match_Str_None)
  then obtain n m where "js_match s (Str l) = Some (n, m)" by auto
  from js_match_first_at[OF this] show ?thesis by blast
qed

lemma first_at_split:
  assumes "first_at l n s"
  shows "take (n + length l) s = take n s @ l" and "s = take n s @ l @ drop (n + length l) s"
proof -
  from assms obtain z where z: "drop n s = l @ z" by (auto simp: first_at_def prefix_def)
  have s: "s = take n s @ l @ z" by (metis append_take_drop_id z)
  have n: "length (take n s) = n" using first_at_le[OF assms] by simp
  have "take (n + length l) (take n s @ l @ z) = take n s @ l"
    using n by (simp add: take_add)
  with s show "take (n + length l) s = take n s @ l" by simp
  then show "s = take n s @ l @ drop (n + length l) s"
    by (metis append_assoc append_take_drop_id)
qed

section \<open>Matching the header block\<close>

lemma first_match_Seq:
  "first_match a s t \<Longrightarrow> first_match b t u \<Longrightarrow> first_match (Seq a b) s u"
  by (auto simp: first_match_def)

lemma first_match_Str: "first_match (Str l) (l @ s) s"
  by (simp add: first_match_def)

lemma first_match_Star_Cls:
  "\<forall>c\<in>set w. p c \<Longrightarrow> s = [] \<or> \<not> p (hd s) \<Longrightarrow> first_match (Star (Cls p)) (w @ s) s"
proof (induction w)
  case Nil
  then show ?case
    by (cases s) (auto simp: first_match_def matches.simps(8))
next
  case (Cons c w)
  then obtain rest where r: "matches (Star (Cls p)) (w @ s) = s # rest"
    by (auto simp: first_match_def)
  from Cons.prems(1) have "p c" by simp
  then show ?case
    unfolding first_match_def matches.simps(8)[of "Cls p" "(c # w) @ s"] by (simp add: r)
qed

lemma first_match_Plus_Cls:
  assumes "w \<noteq> []" "\<forall>c\<in>set w. p c" "s = [] \<or> \<not> p (hd s)"
  shows "first_match (Plus (Cls p)) (w @ s) s"
proof -
  from assms(1) obtain c w' where w: "w = c # w'" by (cases w) auto
  with assms(2) have "p c" "\<forall>c\<in>set w'. p c" by simp_all
  then have "first_match (Cls p) (w @ s) (w' @ s)" by (simp add: first_match_def w)
  moreover have "first_match (Star (Cls p)) (w' @ s) s"
    by (rule first_match_Star_Cls) fact+
  ultimately show ?thesis unfolding Plus_def by (rule first_match_Seq)
qed

lemma not_space_60: "\<not> is_space 60"
  by (simp add: is_space_def)

lemma header_first_match:
  assumes "\<forall>c\<in>set w1. is_space c" "\<forall>c\<in>set w2. is_space c" "\<forall>c\<in>set w3. is_space c"
    and "lbl \<noteq> []" "60 \<notin> set lbl"
  shows "first_match (dateHeaderPattern d) (headerBlock d w1 w2 lbl w3 @ post) post"
proof -
  have s9: \<open>first_match (Str (lit ''</div>'')) (lit ''</div>'' @ post) post\<close>
    by (rule first_match_Str)
  have s8: \<open>first_match (Star (Cls is_space)) (w3 @ lit ''</div>'' @ post) (lit ''</div>'' @ post)\<close>
    by (rule first_match_Star_Cls[OF assms(3)]) (simp add: lit_def not_space_60)
  have s7: \<open>first_match (Str (lit ''</span>'')) (lit ''</span>'' @ w3 @ lit ''</div>'' @ post)
      (w3 @ lit ''</div>'' @ post)\<close>
    by (rule first_match_Str)
  have s6: \<open>first_match (Plus (Cls (\<lambda>c. c \<noteq> 60))) (lbl @ lit ''</span>'' @ w3 @ lit ''</div>'' @ post)
      (lit ''</span>'' @ w3 @ lit ''</div>'' @ post)\<close>
    by (rule first_match_Plus_Cls[OF assms(4)]) (use assms(5) in \<open>auto simp: lit_def\<close>)
  have s5: \<open>first_match (Str (lit ''<span class="date">''))
      (lit ''<span class="date">'' @ lbl @ lit ''</span>'' @ w3 @ lit ''</div>'' @ post)
      (lbl @ lit ''</span>'' @ w3 @ lit ''</div>'' @ post)\<close>
    by (rule first_match_Str)
  have s4: \<open>first_match (Star (Cls is_space))
      (w2 @ lit ''<span class="date">'' @ lbl @ lit ''</span>'' @ w3 @ lit ''</div>'' @ post)
      (lit ''<span class="date">'' @ lbl @ lit ''</span>'' @ w3 @ lit ''</div>'' @ post)\<close>
    by (rule first_match_Star_Cls[OF assms(2)]) (simp add: lit_def not_space_60)
  have s3: \<open>first_match (Str (lit ''<div class="date-header">''))
      (lit ''<div class="date-header">'' @ w2 @ lit ''<span class="date">'' @ lbl @ lit ''</span>''
         @ w3 @ lit ''</div>'' @ post)
      (w2 @ lit ''<span class="date">'' @ lbl @ lit ''</span>'' @ w3 @ lit ''</div>'' @ post)\<close>
    by (rule first_match_Str)
  have s2: \<open>first_match (Star (Cls is_space))
      (w1 @ lit ''<div class="date-header">'' @ w2 @ lit ''<span class="date">'' @ lbl
         @ lit ''</span>'' @ w3 @ lit ''</div>'' @ post)
      (lit ''<div class="date-header">'' @ w2 @ lit ''<span class="date">'' @ lbl @ lit ''</span>''
         @ w3 @ lit ''</div>'' @ post)\<close>
    by (rule first_match_Star_Cls[OF assms(1)]) (simp add: lit_def not_space_60)
  have s1: \<open>first_match (Str (dateTag d))
      (dateTag d @ w1 @ lit ''<div class="date-header">'' @ w2 @ lit ''<span class="date">'' @ lbl
         @ lit ''</span>'' @ w3 @ lit ''</div>'' @ post)
      (w1 @ lit ''<div class="date-header">'' @ w2 @ lit ''<span class="date">'' @ lbl
         @ lit ''</span>'' @ w3 @ lit ''</div>'' @ post)\<close>
    by (rule first_match_Str)
  note ch = first_match_Seq
  have "first_match (dateHeaderPattern d)
      (dateTag d @ w1 @ lit ''<div class=\"date-header\">'' @ w2 @ lit ''<span class=\"date\">'' @ lbl
         @ lit ''</span>'' @ w3 @ lit ''</div>'' @ post) post"
    unfolding dateHeaderPattern_def seqs.simps
    by (rule ch[OF s1 ch[OF s2 ch[OF s3 ch[OF s4 ch[OF s5 ch[OF s6 ch[OF s7 ch[OF s8 s9]]]]]]]])
  then show ?thesis by (simp add: headerBlock_def)
qed

lemma header_no_match:
  "\<not> prefix (dateTag d) s \<Longrightarrow> matches (dateHeaderPattern d) s = []"
  by (simp add: dateHeaderPattern_def)

lemma header_js_match:
  assumes "\<forall>c\<in>set w1. is_space c" "\<forall>c\<in>set w2. is_space c" "\<forall>c\<in>set w3. is_space c"
    and "lbl \<noteq> []" "60 \<notin> set lbl"
    and "\<forall>k<length pre. \<not> prefix (dateTag d) (drop k (pre @ headerBlock d w1 w2 lbl w3 @ post))"
  shows "js_match (pre @ headerBlock d w1 w2 lbl w3 @ post) (dateHeaderPattern d)
     = Some (length pre, headerBlock d w1 w2 lbl w3)"
proof -
  let ?h = "headerBlock d w1 w2 lbl w3"
  have b: "\<forall>k<length pre. matches (dateHeaderPattern d) (drop k (pre @ ?h @ post)) = []"
    using assms(6) by (auto intro: header_no_match)
  from header_first_match[OF assms(1-5), of d post]
  obtain rest where m: "matches (dateHeaderPattern d) (?h @ post) = post # rest"
    by (auto simp: first_match_def)
  have "exec_from (dateHeaderPattern d) (pre @ ?h @ post) 0
      = exec_from (dateHeaderPattern d) (drop (length pre) (pre @ ?h @ post)) (0 + length pre)"
    by (rule exec_from_skip[OF b]) simp
  also have "\<dots> = Some (length pre, ?h)"
    using exec_from_hit[OF m, of "length pre"] by simp
  finally show ?thesis by (simp add: js_match_def)
qed

section \<open>A successful insertion touches one point\<close>

text \<open>
  C2. When the container marker occurs in the document, first at index \<open>n\<close>, and the
  plan has an insertion position \<open>p\<close>, the plan also has the new markup, which is the
  markup of the new entry or of a new day section, and the new content is the first
  \<open>p\<close> code units of the old content, the new markup, and the rest of the old content;
  the two old parts together are the old content, unchanged. That text is what
  \<open>insertRant\<close> writes.
\<close>

theorem insert_splices_only:
  assumes "rants_file w = Some content"
    and "first_at containerMarker n content"
    and "fst (plan now rt content (n + length containerMarker)) = Some p"
  shows "\<exists>html. snd (plan now rt content (n + length containerMarker)) = Some html
     \<and> (html = newEntryHTML now rt \<or> html = newDayHTML now rt)
     \<and> insertContent now rt content = Inr (take p content @ html @ drop p content)
     \<and> take p content @ drop p content = content
     \<and> snd (insertRant now rt cfg w)
         = w\<lparr>rants_file := Some (take p content @ html @ drop p content),
              trace := trace w @ [WriteRants]\<rparr>"
proof -
  let ?ts = "n + length containerMarker"
  from assms(3) plan_undefined_both[of now rt content ?ts]
  obtain html where h: "snd (plan now rt content ?ts) = Some html"
    by (cases "snd (plan now rt content ?ts)") auto
  from plan_html_cases[OF h] have k: "html = newEntryHTML now rt \<or> html = newDayHTML now rt"
    by (simp add: newEntryHTML_def newDayHTML_def)
  have m: "js_match content timelineRegex = Some (n, containerMarker)"
    unfolding timelineRegex_def by (rule first_at_js_match[OF assms(2)])
  have ic: "insertContent now rt content = Inr (take p content @ html @ drop p content)"
    using m assms(3) h
    by (simp add: insertContent_def splice_def slice_to_def slice_from_def to_text_def)
  show ?thesis using h k ic assms(1)
    by (simp add: insertRant_def Let_def)
qed

theorem insert_splices_only_witness:
  \<open>insertContent
       \<lparr>year = 2024, month = 0, day = 15, hours = 9, minutes = 5, epoch_ms = 1705309500000\<rparr>
       (lit ''hi'') (lit ''# Rants <div class="rants-timeline"> </div>'')
     = Inr (lit ''# Rants <div class="rants-timeline">''
          @ newDayHTML \<lparr>year = 2024, month = 0, day = 15, hours = 9, minutes = 5, epoch_ms = 1705309500000\<rparr> (lit ''hi'')
          @ lit '' </div>'')\<close>
proof -
  define w where \<open>w = \<lparr>rants_file = Some (lit ''# Rants <div class="rants-timeline"> </div>''), trace = []\<rparr>\<close>
  define nw where "nw = \<lparr>year = 2024, month = 0, day = 15, hours = 9, minutes = 5, epoch_ms = 1705309500000\<rparr>"
  define c where \<open>c = lit ''# Rants <div class="rants-timeline"> </div>''\<close>
  have h1: "rants_file w = Some c"
    by (simp add: w_def c_def)
  have "js_match c (Str containerMarker) = Some (8, containerMarker)"
    by (simp add: c_def js_match_def exec_from.simps containerMarker_def lit_def)
  then have h2: "first_at containerMarker 8 c" by (simp add: js_match_first_at)
  have pl: "plan nw (lit ''hi'') c (8 + length containerMarker) = (Some 36, Some (newDayHTML nw (lit ''hi'')))"
    unfolding plan_def newDayHTML_def Let_def
    by (simp add: nw_def c_def clock_defs js_match_def exec_from.simps datePattern_def
        firstDateRegex_def containerMarker_def dayTag_def dateTag_def lit_def)
  then have h3: "fst (plan nw (lit ''hi'') c (8 + length containerMarker)) = Some 36" by simp
  from insert_splices_only[OF h1 h2 h3] pl
  have "insertContent nw (lit ''hi'') c = Inr (take 36 c @ newDayHTML nw (lit ''hi'') @ drop 36 c)"
    by auto
  moreover have \<open>take 36 c = lit ''# Rants <div class="rants-timeline">''\<close> "drop 36 c = lit '' </div>''"
    by (simp_all add: c_def lit_def)
  ultimately show ?thesis unfolding nw_def c_def by simp
qed

section \<open>The characters of dates, times and ids\<close>

lemma dec_digit: "c \<in> set (dec n) \<Longrightarrow> is_digit c"
proof (induction n rule: dec.induct)
  case (1 n)
  show ?case
  proof (cases "n < 10")
    case True
    with "1.prems" show ?thesis by (subst (asm) dec.simps) (simp add: is_digit_def)
  next
    case False
    from "1.prems" have "c \<in> set (dec (n div 10)) \<or> c = 48 + n mod 10"
      by (subst (asm) dec.simps) (auto simp: False)
    then show ?thesis
    proof
      assume "c \<in> set (dec (n div 10))"
      then show ?thesis by (rule "1.IH"[OF False])
    next
      assume "c = 48 + n mod 10"
      moreover have "n mod 10 < 10" by simp
      ultimately show ?thesis unfolding is_digit_def by linarith
    qed
  qed
qed

lemma dec_nonempty: "dec n \<noteq> []"
  by (subst dec.simps) simp

lemma padStart2_digit: "c \<in> set (padStart2 (dec n)) \<Longrightarrow> is_digit c"
  by (auto simp: padStart2_def dest: dec_digit) (simp add: is_digit_def)

lemma date_chars: "c \<in> set (date (getCurrentDateTime now)) \<Longrightarrow> is_digit c \<or> c = 45"
  by (auto simp: getCurrentDateTime_def Let_def lit_def dest: dec_digit padStart2_digit)

lemma dateKey_chars: "c \<in> set (dateKey now) \<Longrightarrow> is_digit c \<or> c = 45"
  unfolding dateKey_def by (rule date_chars)

lemma monthName_chars:
  "c \<in> set (if m < 12 then monthNames ! m else lit ''undefined'') \<Longrightarrow> is_alpha c"
proof (cases "m < 12")
  case True
  assume c: "c \<in> set (if m < 12 then monthNames ! m else lit ''undefined'')"
  have "\<forall>x\<in>set monthNames. \<forall>c\<in>set x. is_alpha c"
    by (simp add: monthNames_def lit_def is_alpha_def)
  moreover from True have "monthNames ! m \<in> set monthNames"
    by (intro nth_mem) (simp add: monthNames_def)
  ultimately show ?thesis using c True by auto
next
  case False
  assume "c \<in> set (if m < 12 then monthNames ! m else lit ''undefined'')"
  with False show ?thesis by (auto simp: lit_def is_alpha_def)
qed

lemma displayDate_chars:
  "c \<in> set (displayDate (getCurrentDateTime now)) \<Longrightarrow> is_alpha c \<or> is_digit c \<or> c = 32 \<or> c = 44"
  by (auto simp: getCurrentDateTime_def Let_def lit_def
      dest: dec_digit padStart2_digit monthName_chars[of _ "month now"])

lemma displayDate_nonempty: "displayDate (getCurrentDateTime now) \<noteq> []"
  by (simp add: getCurrentDateTime_def Let_def lit_def)

lemma time_chars:
  "c \<in> set (time (getCurrentDateTime now)) \<Longrightarrow> is_alpha c \<or> is_digit c \<or> c = 32 \<or> c = 58"
  by (auto simp: getCurrentDateTime_def Let_def lit_def is_alpha_def
      dest: dec_digit padStart2_digit split: if_splits)

lemma rantId_chars: "c \<in> set (rantIdOf now) \<Longrightarrow> is_alpha c \<or> is_digit c \<or> c = 45"
  by (auto simp: rantIdOf_def lit_def is_alpha_def dest: dec_digit date_chars)

lemma clock_no_lt:
  "60 \<notin> set (date (getCurrentDateTime now))" "60 \<notin> set (displayDate (getCurrentDateTime now))"
  "60 \<notin> set (time (getCurrentDateTime now))" "60 \<notin> set (rantIdOf now)"
  "10 \<notin> set (date (getCurrentDateTime now))"
  using date_chars[of 60 now] displayDate_chars[of 60 now] time_chars[of 60 now]
    rantId_chars[of 60 now] date_chars[of 10 now]
  by (auto simp: is_alpha_def is_digit_def)

section \<open>Counting opening tags\<close>

lemma no_div_open_append: "no_div_open a \<Longrightarrow> no_div_open b \<Longrightarrow> no_div_open (a @ b)"
proof (induction a rule: no_div_open.induct)
  case 1
  then show ?case by simp
next
  case (2 c)
  then show ?case by (cases b) simp_all
next
  case (3 c c' s)
  then show ?case by simp
qed

lemma no_div_open_plain: "60 \<notin> set u \<Longrightarrow> no_div_open u"
  by (induction u rule: no_div_open.induct) auto

lemma count_sub_skip:
  "no_div_open u \<Longrightarrow> count_sub (60 # 100 # p) (u @ s) = count_sub (60 # 100 # p) s"
proof (induction u rule: no_div_open.induct)
  case 1
  then show ?case by simp
next
  case (2 c)
  then show ?case by simp
next
  case (3 c c' s')
  then show ?case by auto
qed

lemma stripTrailing_set: "set (stripTrailing m) \<subseteq> set m"
  unfolding stripTrailing_def by (metis set_dropWhileD set_rev subsetI)

lemma no_div_open_linkUrl: "60 \<notin> set m \<Longrightarrow> no_div_open (linkUrl m)"
proof -
  assume m: "60 \<notin> set m"
  then have "60 \<notin> set (stripTrailing m)" using stripTrailing_set by blast
  then have c: "no_div_open (stripTrailing m)"
    and u: "no_div_open (lit ''https://'' @ stripTrailing m)"
    by (auto intro!: no_div_open_plain simp: lit_def)
  from m have "60 \<notin> set (drop (length (stripTrailing m)) m)" by (meson in_set_dropD)
  then have t: "no_div_open (drop (length (stripTrailing m)) m)" by (rule no_div_open_plain)
  have l1: \<open>no_div_open (lit ''<a href="'')\<close>
    and l2: \<open>no_div_open (lit ''" target="_blank" rel="noopener noreferrer">'')\<close>
    and l3: \<open>no_div_open (lit ''</a>'')\<close>
    by (simp_all add: lit_def)
  show ?thesis
    unfolding linkUrl_def Let_def
    by (intro no_div_open_append l1 l2 l3 t c) (simp add: u c)
qed

lemma no_div_open_replace_all:
  assumes f: "\<And>m. 60 \<notin> set m \<Longrightarrow> no_div_open (f m)"
  shows "60 \<notin> set s \<Longrightarrow> no_div_open (replace_all r f s)"
proof (induction s rule: length_induct)
  case (1 s)
  have IH: "no_div_open (replace_all r f u)" if "length u < length s" "60 \<notin> set u" for u
    using "1.IH" that by blast
  have f0: "no_div_open (f [])" by (rule f) simp
  have step: "no_div_open (case s of [] \<Rightarrow> [] | c # s' \<Rightarrow> c # replace_all r f s')"
  proof (cases s)
    case Nil
    then show ?thesis by simp
  next
    case (Cons c s')
    with "1.prems" have c: "c \<noteq> 60" "60 \<notin> set s'" by auto
    have "no_div_open ([c] @ replace_all r f s')"
      by (intro no_div_open_append IH) (simp_all add: c Cons)
    then show ?thesis by (simp add: Cons)
  qed
  show ?case
  proof (cases "matches r s")
    case Nil
    with step show ?thesis by (subst replace_all.simps) simp
  next
    case (Cons t ts)
    then have "t \<in> set (matches r s)" by simp
    then have "suffix t s" by (rule matches_suffix)
    then have t: "60 \<notin> set t" using "1.prems" by (auto simp: suffix_def)
    show ?thesis
    proof (cases "length t < length s")
      case True
      have "60 \<notin> set (take (length s - length t) s)"
        using "1.prems" by (meson in_set_takeD)
      then have "no_div_open (f (take (length s - length t) s))" by (rule f)
      then have "no_div_open (f (take (length s - length t) s) @ replace_all r f t)"
        by (rule no_div_open_append) (rule IH[OF True t])
      then show ?thesis by (subst replace_all.simps) (simp add: Cons True)
    next
      case False
      from f0 step
      have "no_div_open (f [] @ (case s of [] \<Rightarrow> [] | c # s' \<Rightarrow> c # replace_all r f s'))"
        by (rule no_div_open_append)
      then show ?thesis by (subst replace_all.simps) (simp add: Cons False)
    qed
  qed
qed

lemma replace_newline_id: "replace_all (Ch c) (\<lambda>m. [c]) s = s"
proof (induction s)
  case Nil
  then show ?case by (subst replace_all.simps) simp
next
  case (Cons x s)
  then show ?case by (subst replace_all.simps) simp
qed

lemma entryBody_eq: "entryBody rt = autoLinkUrls rt"
  by (simp add: entryBody_def replace_newline_id)

lemma no_div_open_entryBody: "60 \<notin> set rt \<Longrightarrow> no_div_open (entryBody rt)"
  unfolding entryBody_eq autoLinkUrls_def
  by (rule no_div_open_replace_all) (rule no_div_open_linkUrl)

section \<open>A new day section\<close>

lemma plan_new_date:
  assumes "\<not> sublist (dateTag (dateKey now)) content"
  shows "plan now rt content ts =
     (case js_match (drop ts content) firstDateRegex of
        Some (index, m) \<Rightarrow> (Some (ts + index), Some (newDayHTML now rt))
      | None \<Rightarrow> (Some ts, Some (newDayHTML now rt)))"
proof -
  from assms have "js_match content (datePattern (date (getCurrentDateTime now))) = None"
    by (simp add: datePattern_def js_match_Str_None dateKey_def)
  then show ?thesis unfolding plan_def Let_def newDayHTML_def by simp
qed

lemma insertContent_found:
  assumes "first_at containerMarker n content"
  shows "insertContent now rt content
     = Inr (splice content (plan now rt content (n + length containerMarker)))"
  using first_at_js_match[OF assms] by (simp add: insertContent_def timelineRegex_def)

lemma new_day_counts:
  assumes "60 \<notin> set rt"
  shows "count_sub dayTag (containerMarker @ newDayHTML now rt) = 1"
    and "count_sub (dateTag (dateKey now)) (containerMarker @ newDayHTML now rt) = 1"
    and "count_sub entryTag (containerMarker @ newDayHTML now rt) = 1"
proof -
  note nd = clock_no_lt(1-4)[of now, THEN no_div_open_plain] no_div_open_entryBody[OF assms]
  show "count_sub dayTag (containerMarker @ newDayHTML now rt) = 1"
    by (simp add: newDayHTML_def dayHTML_def containerMarker_def dayTag_def linkGlyph_def lit_def
        count_sub_skip nd)
  show "count_sub (dateTag (dateKey now)) (containerMarker @ newDayHTML now rt) = 1"
    by (simp add: newDayHTML_def dayHTML_def containerMarker_def dateTag_def dateKey_def
        dayTag_def linkGlyph_def lit_def count_sub_skip nd)
  show "count_sub entryTag (containerMarker @ newDayHTML now rt) = 1"
    by (simp add: newDayHTML_def dayHTML_def containerMarker_def entryTag_def linkGlyph_def
        lit_def count_sub_skip nd)
qed

lemma new_day_before_first:
  assumes c: "first_at containerMarker n content"
    and d: "\<not> sublist (dateTag (dateKey now)) content"
    and f: "first_at dayTag k (drop (n + length containerMarker) content)"
  shows "insertContent now rt content
     = Inr (take (n + length containerMarker + k) content @ newDayHTML now rt
            @ drop (n + length containerMarker + k) content)"
  unfolding insertContent_found[OF c] plan_new_date[OF d]
  using first_at_js_match[OF f]
  by (simp add: firstDateRegex_def splice_def slice_to_def slice_from_def to_text_def)

lemma new_day_after_marker:
  assumes c: "first_at containerMarker n content"
    and d: "\<not> sublist (dateTag (dateKey now)) content"
    and f: "\<not> sublist dayTag (drop (n + length containerMarker) content)"
  shows "insertContent now rt content
     = Inr (take n content @ containerMarker @ newDayHTML now rt
            @ drop (n + length containerMarker) content)"
proof -
  from f have "js_match (drop (n + length containerMarker) content) firstDateRegex = None"
    by (simp add: firstDateRegex_def js_match_Str_None)
  then show ?thesis
    unfolding insertContent_found[OF c] plan_new_date[OF d]
    by (simp add: splice_def slice_to_def slice_from_def to_text_def first_at_split(1)[OF c])
qed

text \<open>
  C4. Let the container marker occur first at index \<open>n\<close> of the document, and let the
  document have no opening tag of a day section for the date key of the insertion.
  If, after the marker, a day section of any date starts first at offset \<open>k\<close>, the new day
  section (header and the single new entry) is spliced at that offset, so that the
  old section follows it at once. If no day section starts after the marker, the new day
  section is spliced right after the marker. For the document that is the marker
  alone the result is the marker followed by the new day section; when the rant text
  has no \<open><\<close>, this result has one opening tag of a day section, which is the tag
  of the date key, and one opening tag of an entry.
\<close>

theorem new_day_section:
  assumes "first_at containerMarker n content"
    and "\<not> sublist (dateTag (dateKey now)) content"
  shows "(\<forall>k. first_at dayTag k (drop (n + length containerMarker) content) \<longrightarrow>
            insertContent now rt content
              = Inr (take (n + length containerMarker + k) content @ newDayHTML now rt
                     @ drop (n + length containerMarker + k) content)
            \<and> prefix dayTag (drop (n + length containerMarker + k) content))
     \<and> (\<not> sublist dayTag (drop (n + length containerMarker) content) \<longrightarrow>
            insertContent now rt content
              = Inr (take n content @ containerMarker @ newDayHTML now rt
                     @ drop (n + length containerMarker) content))
     \<and> (content = containerMarker \<longrightarrow>
            insertContent now rt content = Inr (containerMarker @ newDayHTML now rt)
            \<and> (60 \<notin> set rt \<longrightarrow>
                 count_sub dayTag (containerMarker @ newDayHTML now rt) = 1
                 \<and> count_sub (dateTag (dateKey now)) (containerMarker @ newDayHTML now rt) = 1
                 \<and> count_sub entryTag (containerMarker @ newDayHTML now rt) = 1))"
proof (intro conjI allI impI)
  fix k assume f: "first_at dayTag k (drop (n + length containerMarker) content)"
  show "insertContent now rt content
      = Inr (take (n + length containerMarker + k) content @ newDayHTML now rt
             @ drop (n + length containerMarker + k) content)"
    by (rule new_day_before_first[OF assms f])
  from f show "prefix dayTag (drop (n + length containerMarker + k) content)"
    by (simp add: first_at_def add.commute)
next
  assume "\<not> sublist dayTag (drop (n + length containerMarker) content)"
  then show "insertContent now rt content
      = Inr (take n content @ containerMarker @ newDayHTML now rt
             @ drop (n + length containerMarker) content)"
    by (rule new_day_after_marker[OF assms])
next
  assume m: "content = containerMarker"
  with assms(1) have "prefix containerMarker (drop n containerMarker)"
    by (simp add: first_at_def)
  then have "length containerMarker \<le> length containerMarker - n"
    by (metis length_drop prefix_length_le)
  then have n: "n = 0" by (simp add: containerMarker_def lit_def)
  have "\<not> sublist dayTag (drop (n + length containerMarker) content)"
    by (simp add: m n dayTag_def lit_def)
  from new_day_after_marker[OF assms this, of rt]
  show "insertContent now rt content = Inr (containerMarker @ newDayHTML now rt)"
    by (simp add: m n)
next
  assume "60 \<notin> set rt"
  then show "count_sub dayTag (containerMarker @ newDayHTML now rt) = 1"
    and "count_sub (dateTag (dateKey now)) (containerMarker @ newDayHTML now rt) = 1"
    and "count_sub entryTag (containerMarker @ newDayHTML now rt) = 1"
    by (rule new_day_counts)+
qed

lemma dateKey_feb: "dateKey \<lparr>year = 2024, month = 1, day = 1, hours = 14, minutes = 30,
    epoch_ms = 1706797800000\<rparr> = lit ''2024-02-01''"
  by (simp add: dateKey_def clock_defs lit_def Let_def)

theorem new_day_section_witness:
  \<open>insertContent \<lparr>year = 2024, month = 1, day = 1, hours = 14, minutes = 30, epoch_ms = 1706797800000\<rparr>
      (lit ''hi'') (lit ''<div class="rants-timeline"> <div class="rant-day" data-date="2024-01-15">'')
     = Inr (lit ''<div class="rants-timeline"> ''
          @ newDayHTML \<lparr>year = 2024, month = 1, day = 1, hours = 14, minutes = 30, epoch_ms = 1706797800000\<rparr> (lit ''hi'')
          @ lit ''<div class="rant-day" data-date="2024-01-15">'')
   \<and> insertContent \<lparr>year = 2024, month = 1, day = 1, hours = 14, minutes = 30, epoch_ms = 1706797800000\<rparr>
      (lit ''hi'') (lit ''<div class="rants-timeline"> </div>'')
     = Inr (lit ''<div class="rants-timeline">''
          @ newDayHTML \<lparr>year = 2024, month = 1, day = 1, hours = 14, minutes = 30, epoch_ms = 1706797800000\<rparr> (lit ''hi'')
          @ lit '' </div>'')
   \<and> insertContent \<lparr>year = 2024, month = 1, day = 1, hours = 14, minutes = 30, epoch_ms = 1706797800000\<rparr>
      (lit ''hi'') containerMarker
     = Inr (containerMarker
          @ newDayHTML \<lparr>year = 2024, month = 1, day = 1, hours = 14, minutes = 30, epoch_ms = 1706797800000\<rparr> (lit ''hi''))
   \<and> count_sub dayTag (containerMarker
          @ newDayHTML \<lparr>year = 2024, month = 1, day = 1, hours = 14, minutes = 30, epoch_ms = 1706797800000\<rparr> (lit ''hi'')) = 1
   \<and> count_sub entryTag (containerMarker
          @ newDayHTML \<lparr>year = 2024, month = 1, day = 1, hours = 14, minutes = 30, epoch_ms = 1706797800000\<rparr> (lit ''hi'')) = 1\<close>
proof -
  define nw where "nw = \<lparr>year = 2024, month = 1, day = 1, hours = 14, minutes = 30, epoch_ms = 1706797800000\<rparr>"
  define A where \<open>A = lit ''<div class="rants-timeline"> <div class="rant-day" data-date="2024-01-15">''\<close>
  define B where \<open>B = lit ''<div class="rants-timeline"> </div>''\<close>
  have dk: "dateKey nw = lit ''2024-02-01''" unfolding nw_def by (rule dateKey_feb)
  have a1: "first_at containerMarker 0 A"
    by (simp add: first_at_def A_def containerMarker_def lit_def)
  have a2: "\<not> sublist (dateTag (dateKey nw)) A"
    by (simp add: dk A_def dateTag_def dayTag_def lit_def sublist_code)
  have "js_match (drop (0 + length containerMarker) A) (Str dayTag) = Some (1, dayTag)"
    by (simp add: A_def containerMarker_def dayTag_def lit_def js_match_def exec_from.simps)
  then have a3: "first_at dayTag 1 (drop (0 + length containerMarker) A)"
    by (simp add: js_match_first_at)
  have b1: "first_at containerMarker 0 B"
    by (simp add: first_at_def B_def containerMarker_def lit_def)
  have b2: "\<not> sublist (dateTag (dateKey nw)) B"
    by (simp add: dk B_def dateTag_def dayTag_def lit_def sublist_code)
  have b3: "\<not> sublist dayTag (drop (0 + length containerMarker) B)"
    by (simp add: B_def containerMarker_def dayTag_def lit_def sublist_code)
  have c1: "first_at containerMarker 0 containerMarker"
    by (simp add: first_at_def)
  have c2: "\<not> sublist (dateTag (dateKey nw)) containerMarker"
    by (simp add: dk containerMarker_def dateTag_def dayTag_def lit_def sublist_code)
  have c3: "60 \<notin> set (lit ''hi'')" by (simp add: lit_def)
  from new_day_section[OF a1 a2, of "lit ''hi''"] a3
  have ra: "insertContent nw (lit ''hi'') A
      = Inr (take (0 + length containerMarker + 1) A @ newDayHTML nw (lit ''hi'')
             @ drop (0 + length containerMarker + 1) A)" by blast
  from new_day_section[OF b1 b2, of "lit ''hi''"] b3
  have rb: "insertContent nw (lit ''hi'') B
      = Inr (take 0 B @ containerMarker @ newDayHTML nw (lit ''hi'')
             @ drop (0 + length containerMarker) B)" by blast
  from new_day_section[OF c1 c2, of "lit ''hi''"] c3
  have rc: "insertContent nw (lit ''hi'') containerMarker
        = Inr (containerMarker @ newDayHTML nw (lit ''hi''))"
    "count_sub dayTag (containerMarker @ newDayHTML nw (lit ''hi'')) = 1"
    "count_sub entryTag (containerMarker @ newDayHTML nw (lit ''hi'')) = 1" by blast+
  have ta: \<open>take (0 + length containerMarker + 1) A = lit ''<div class="rants-timeline"> ''\<close>
    \<open>drop (0 + length containerMarker + 1) A = lit ''<div class="rant-day" data-date="2024-01-15">''\<close>
    by (simp_all add: A_def containerMarker_def lit_def)
  have tb: \<open>take 0 B @ containerMarker = lit ''<div class="rants-timeline">''\<close>
    \<open>drop (0 + length containerMarker) B = lit '' </div>''\<close>
    by (simp_all add: B_def containerMarker_def lit_def)
  show ?thesis
    using ra rb rc unfolding ta append_assoc[symmetric] tb
    unfolding nw_def A_def B_def by simp
qed

section \<open>A second entry on the same day\<close>

lemma same_day_after_header:
  assumes c: "sublist containerMarker content"
    and e: "content = pre @ headerBlock (dateKey now) w1 w2 lbl w3 @ post"
    and w: "\<forall>c\<in>set w1. is_space c" "\<forall>c\<in>set w2. is_space c" "\<forall>c\<in>set w3. is_space c"
    and l: "lbl \<noteq> []" "60 \<notin> set lbl"
    and f: "\<forall>k<length pre. \<not> prefix (dateTag (dateKey now)) (drop k content)"
  shows "insertContent now rt content
     = Inr (pre @ headerBlock (dateKey now) w1 w2 lbl w3 @ newEntryHTML now rt @ post)"
proof -
  let ?d = "dateKey now" and ?h = "headerBlock (dateKey now) w1 w2 lbl w3"
  from sublist_first_at[OF c] obtain n where n: "first_at containerMarker n content" ..
  have "sublist (dateTag ?d) content"
    unfolding e headerBlock_def by (metis append_assoc sublist_appendI)
  then have "js_match content (datePattern ?d) \<noteq> None"
    by (simp add: datePattern_def js_match_Str_None)
  then obtain x where x: "js_match content (datePattern (date (getCurrentDateTime now))) = Some x"
    by (auto simp: dateKey_def)
  have h: "js_match content (dateHeaderPattern (date (getCurrentDateTime now)))
      = Some (length pre, ?h)"
    using header_js_match[OF w l, of pre ?d post] f unfolding e dateKey_def by simp
  have "plan now rt content (n + length containerMarker)
      = (Some (length pre + length ?h), Some (newEntryHTML now rt))"
    unfolding plan_def Let_def newEntryHTML_def by (simp add: x h)
  then show ?thesis
    unfolding insertContent_found[OF n]
    by (simp add: splice_def slice_to_def slice_from_def to_text_def e)
qed

lemma no_prefix_left:
  assumes "\<not> sublist P x" "c \<notin> set P" "k < length x"
  shows "\<not> prefix P (drop k (x @ c # s))"
proof
  assume p: "prefix P (drop k (x @ c # s))"
  have d: "drop k (x @ c # s) = drop k x @ c # s" using assms(3) by simp
  show False
  proof (cases "length P \<le> length (drop k x)")
    case True
    with p d have "prefix P (drop k x)" by (metis prefix_length_prefix prefixI)
    then have "sublist P x"
      by (metis append_take_drop_id prefix_def sublist_appendI)
    with assms(1) show False ..
  next
    case False
    then have lt: "length (drop k x) < length P" by simp
    from p d obtain z where z: "drop k x @ c # s = P @ z" by (auto simp: prefix_def)
    then have "P ! length (drop k x) = (drop k x @ c # s) ! length (drop k x)"
      using lt by (metis nth_append)
    also have "\<dots> = c" by (rule nth_append_length)
    finally have "P ! length (drop k x) = c" .
    with lt have "c \<in> set P" by (metis nth_mem)
    with assms(2) show False ..
  qed
qed

lemma no_prefix_nd:
  "no_div_open u \<Longrightarrow> k < length u \<Longrightarrow> \<not> prefix (60 # 100 # q) (drop k (u @ s))"
proof (induction u arbitrary: k rule: no_div_open.induct)
  case 1
  then show ?case by simp
next
  case (2 c)
  then show ?case by simp
next
  case (3 c c' s')
  show ?case
  proof (cases k)
    case 0
    with "3.prems"(1) show ?thesis by auto
  next
    case (Suc k')
    with "3.prems" have "\<not> prefix (60 # 100 # q) (drop k' ((c' # s') @ s))"
      by (intro "3.IH") simp_all
    with Suc show ?thesis by simp
  qed
qed

lemma count_sub_left:
  "(\<forall>k<length x. \<not> prefix P (drop k (x @ s))) \<Longrightarrow> count_sub P (x @ s) = count_sub P s"
proof (induction x)
  case Nil
  then show ?case by simp
next
  case (Cons c x)
  from Cons.prems have 0: "\<not> prefix P (c # x @ s)" by (metis append_Cons drop0 length_greater_0_conv list.distinct(1))
  have "\<forall>k<length x. \<not> prefix P (drop k (x @ s))"
  proof (intro allI impI)
    fix k assume "k < length x"
    then have "Suc k < length (c # x)" by simp
    from Cons.prems[rule_format, OF this] show "\<not> prefix P (drop k (x @ s))" by simp
  qed
  from Cons.IH[OF this] 0 show ?case by simp
qed

lemma count_sub_none: "\<not> sublist P s \<Longrightarrow> count_sub P s = 0"
  by (induction s) (auto simp: sublist_Cons_right)

lemma newDayHTML_split:
  "newDayHTML now rt =
     lit ''\<newline>\<newline><!-- '' @ dateKey now @ lit '' -->\<newline>''
     @ headerBlock (dateKey now) [10] [10] (displayDate (getCurrentDateTime now)) [10]
     @ newEntryHTML now rt @ lit ''\<newline>\<newline></div>''"
  by (simp add: newDayHTML_def dayHTML_def newEntryHTML_def entryHTML_def headerBlock_def
      dateTag_def dayTag_def dateKey_def lit_def)

lemma first_insert_position:
  assumes c: "first_at containerMarker n c0"
    and d: "\<not> sublist (dateTag (dateKey now)) c0"
  shows "\<exists>p. n + length containerMarker \<le> p \<and> p \<le> length c0
     \<and> insertContent now rt c0 = Inr (take p c0 @ newDayHTML now rt @ drop p c0)"
proof (cases "sublist dayTag (drop (n + length containerMarker) c0)")
  case True
  from sublist_first_at[OF this] obtain k
    where k: "first_at dayTag k (drop (n + length containerMarker) c0)" ..
  from first_at_le[OF k] have "k \<le> length c0 - (n + length containerMarker)" by simp
  moreover have "n + length containerMarker \<le> length c0"
    using first_at_split(2)[OF c] by (metis append_assoc length_append le_add1 length_take first_at_le[OF c] min.absorb2)
  ultimately have "n + length containerMarker + k \<le> length c0" by simp
  with new_day_before_first[OF c d k, of rt] show ?thesis
    by (intro exI[of _ "n + length containerMarker + k"]) simp
next
  case False
  have le: "n + length containerMarker \<le> length c0"
    using first_at_split(2)[OF c] by (metis append_assoc length_append le_add1 length_take first_at_le[OF c] min.absorb2)
  from new_day_after_marker[OF c d False, of rt] first_at_split(1)[OF c] le show ?thesis
    by (intro exI[of _ "n + length containerMarker"]) simp
qed

lemma comment_no_div_open:
  "no_div_open (lit ''\<newline>\<newline><!-- '' @ dateKey now @ lit '' -->\<newline>'')"
proof -
  have "60 \<notin> set (dateKey now)" unfolding dateKey_def by (rule clock_no_lt)
  then have "no_div_open (dateKey now)" by (rule no_div_open_plain)
  then show ?thesis
    by (intro no_div_open_append) (simp_all add: lit_def)
qed

lemma dateTag_form: "dateTag d = 60 # 100 # drop 2 (dateTag d)" "10 \<notin> set d \<Longrightarrow> 10 \<notin> set (dateTag d)"
  by (simp_all add: dateTag_def dayTag_def lit_def)

lemma no_tag_before_header:
  assumes d: "\<not> sublist (dateTag (dateKey now)) x"
    and k: "k < length (x @ lit ''\<newline>\<newline><!-- '' @ dateKey now @ lit '' -->\<newline>'')"
  shows "\<not> prefix (dateTag (dateKey now))
     (drop k ((x @ lit ''\<newline>\<newline><!-- '' @ dateKey now @ lit '' -->\<newline>'') @ s))"
proof (cases "k < length x")
  case True
  have n: "10 \<notin> set (dateTag (dateKey now))"
    by (rule dateTag_form(2)) (simp add: dateKey_def clock_no_lt)
  from no_prefix_left[OF d n True, of "10 # lit ''<!-- '' @ dateKey now @ lit '' -->\<newline>'' @ s"]
  show ?thesis by (simp add: lit_def)
next
  case False
  let ?u = "lit ''\<newline>\<newline><!-- '' @ dateKey now @ lit '' -->\<newline>''"
  from False k have "k - length x < length ?u" by simp
  from no_prefix_nd[OF comment_no_div_open this, of "drop 2 (dateTag (dateKey now))" s]
  have "\<not> prefix (dateTag (dateKey now)) (drop (k - length x) (?u @ s))"
    using dateTag_form(1)[of "dateKey now"] by simp
  with False show ?thesis by simp
qed

lemma take_mid:
  "length a + length b \<le> p \<Longrightarrow> take p (a @ b @ z) = a @ b @ take (p - (length a + length b)) z"
  by simp

lemma two_inserts_same_day:
  assumes c: "first_at containerMarker n c0"
    and d: "\<not> sublist (dateTag (dateKey nowA)) c0"
    and s: "dateKey nowB = dateKey nowA"
  shows "\<exists>p. n + length containerMarker \<le> p \<and> p \<le> length c0
     \<and> insertContent nowA rtA c0 = Inr (take p c0 @ newDayHTML nowA rtA @ drop p c0)
     \<and> insertContent nowB rtB (take p c0 @ newDayHTML nowA rtA @ drop p c0)
         = Inr (take p c0 @ lit ''\<newline>\<newline><!-- '' @ dateKey nowA @ lit '' -->\<newline>''
                @ headerBlock (dateKey nowA) [10] [10] (displayDate (getCurrentDateTime nowA)) [10]
                @ newEntryHTML nowB rtB @ newEntryHTML nowA rtA
                @ lit ''\<newline>\<newline></div>'' @ drop p c0)"
proof -
  from first_insert_position[OF c d, of rtA] obtain p
    where p: "n + length containerMarker \<le> p" "p \<le> length c0"
      "insertContent nowA rtA c0 = Inr (take p c0 @ newDayHTML nowA rtA @ drop p c0)" by blast
  let ?pre = "take p c0 @ lit ''\<newline>\<newline><!-- '' @ dateKey nowA @ lit '' -->\<newline>''"
  let ?h = "headerBlock (dateKey nowA) [10] [10] (displayDate (getCurrentDateTime nowA)) [10]"
  let ?post = "newEntryHTML nowA rtA @ lit ''\<newline>\<newline></div>'' @ drop p c0"
  let ?c1 = "take p c0 @ newDayHTML nowA rtA @ drop p c0"
  have c1: "?c1 = ?pre @ ?h @ ?post" by (simp add: newDayHTML_split)
  have "take p c0 = take n c0 @ containerMarker
      @ take (p - (n + length containerMarker)) (drop (n + length containerMarker) c0)"
  proof -
    have "length (take n c0) = n" using first_at_le[OF c] by simp
    then have "take p (take n c0 @ containerMarker @ drop (n + length containerMarker) c0)
        = take n c0 @ containerMarker
          @ take (p - (n + length containerMarker)) (drop (n + length containerMarker) c0)"
      using p(1) by (simp add: take_mid)
    with first_at_split(2)[OF c] show ?thesis by simp
  qed
  then have sub: "sublist containerMarker ?c1"
    by (metis append_assoc sublist_appendI)
  have nd: "\<not> sublist (dateTag (dateKey nowA)) (take p c0)"
    using d by (metis append_take_drop_id sublist_append)
  have f: "\<forall>k<length ?pre. \<not> prefix (dateTag (dateKey nowB)) (drop k (?pre @ ?h @ ?post))"
    unfolding s using no_tag_before_header[OF nd, of _ "?h @ ?post"] by simp
  have sp: "\<forall>c\<in>set [10::nat]. is_space c" by (simp add: is_space_def)
  have "insertContent nowB rtB (?pre @ ?h @ ?post)
      = Inr (?pre @ headerBlock (dateKey nowB) [10] [10] (displayDate (getCurrentDateTime nowA)) [10]
             @ newEntryHTML nowB rtB @ ?post)"
    by (rule same_day_after_header[OF _ _ sp sp sp displayDate_nonempty clock_no_lt(2)])
       (use sub c1 f s in simp_all)
  then have "insertContent nowB rtB ?c1 = Inr (?pre @ ?h @ newEntryHTML nowB rtB @ ?post)"
    unfolding c1 s .
  with p show ?thesis by (intro exI[of _ p]) simp
qed

lemma two_inserts_count:
  assumes d: "\<not> sublist (dateTag (dateKey nowA)) c0"
    and a: "60 \<notin> set rtA" and b: "60 \<notin> set rtB"
  shows "count_sub (dateTag (dateKey nowA))
     (take p c0 @ lit ''\<newline>\<newline><!-- '' @ dateKey nowA @ lit '' -->\<newline>''
      @ headerBlock (dateKey nowA) [10] [10] (displayDate (getCurrentDateTime nowA)) [10]
      @ newEntryHTML nowB rtB @ newEntryHTML nowA rtA
      @ lit ''\<newline>\<newline></div>'' @ drop p c0) = 1"
proof -
  let ?P = "dateTag (dateKey nowA)"
  let ?s = "lit ''<!-- '' @ dateKey nowA @ lit '' -->\<newline>''
      @ headerBlock (dateKey nowA) [10] [10] (displayDate (getCurrentDateTime nowA)) [10]
      @ newEntryHTML nowB rtB @ newEntryHTML nowA rtA
      @ lit ''\<newline>\<newline></div>'' @ drop p c0"
  have nx: "\<not> sublist ?P (take p c0)"
    using d by (metis append_take_drop_id sublist_append)
  have ny: "\<not> sublist ?P (drop p c0)"
    using d by (metis append_take_drop_id sublist_append)
  have n10: "10 \<notin> set ?P"
    by (rule dateTag_form(2)) (simp add: dateKey_def clock_no_lt)
  have "\<forall>k<length (take p c0). \<not> prefix ?P (drop k (take p c0 @ 10 # 10 # ?s))"
    using no_prefix_left[OF nx n10] by blast
  then have 1: "count_sub ?P (take p c0 @ 10 # 10 # ?s) = count_sub ?P (10 # 10 # ?s)"
    by (rule count_sub_left)
  note nd = clock_no_lt(1-4)[of nowA, THEN no_div_open_plain]
    clock_no_lt(1-4)[of nowB, THEN no_div_open_plain]
    no_div_open_entryBody[OF a] no_div_open_entryBody[OF b]
  have 2: "count_sub ?P (10 # 10 # ?s) = 1"
    using count_sub_none[OF ny]
    by (simp add: headerBlock_def newEntryHTML_def entryHTML_def dateTag_def dateKey_def
        dayTag_def linkGlyph_def lit_def count_sub_skip nd)
  have "take p c0 @ lit ''\<newline>\<newline><!-- '' @ dateKey nowA @ lit '' -->\<newline>''
      @ headerBlock (dateKey nowA) [10] [10] (displayDate (getCurrentDateTime nowA)) [10]
      @ newEntryHTML nowB rtB @ newEntryHTML nowA rtA
      @ lit ''\<newline>\<newline></div>'' @ drop p c0 = take p c0 @ 10 # 10 # ?s"
    by (simp add: lit_def)
  with 1 2 show ?thesis by simp
qed

text \<open>
  C3. First part: let the document contain the container marker and be \<open>pre\<close>, a header
  block of the date key (opening tag of the day section, header element, a label that
  is not empty and has no \<open><\<close>, white space between the elements) and \<open>post\<close>, with no
  opening tag of that date key starting inside \<open>pre\<close>. Then the new entry is spliced
  right after the header block. Second part: let the document contain the container
  marker and no day section of the date key, and let entry A and then entry B be
  inserted with the same date key. The first insertion creates the day section at some
  position \<open>p\<close> after the marker; after the second one the document is the old text up
  to \<open>p\<close>, the comment, one header block, entry B, entry A, the end of the section, and
  the old text from \<open>p\<close> on. When neither rant text has a \<open><\<close>, the whole document has
  one opening tag of a day section for the date key.
\<close>

theorem same_day_insertion:
  "(sublist containerMarker content
      \<and> content = pre @ headerBlock (dateKey now) w1 w2 lbl w3 @ post
      \<and> (\<forall>c\<in>set (w1 @ w2 @ w3). is_space c) \<and> lbl \<noteq> [] \<and> 60 \<notin> set lbl
      \<and> (\<forall>k<length pre. \<not> prefix (dateTag (dateKey now)) (drop k content))
    \<longrightarrow> insertContent now rt content
          = Inr (pre @ headerBlock (dateKey now) w1 w2 lbl w3 @ newEntryHTML now rt @ post))
   \<and> (first_at containerMarker n c0 \<and> \<not> sublist (dateTag (dateKey nowA)) c0
      \<and> dateKey nowB = dateKey nowA
    \<longrightarrow> (\<exists>p. n + length containerMarker \<le> p \<and> p \<le> length c0
          \<and> insertContent nowA rtA c0 = Inr (take p c0 @ newDayHTML nowA rtA @ drop p c0)
          \<and> insertContent nowB rtB (take p c0 @ newDayHTML nowA rtA @ drop p c0)
              = Inr (take p c0 @ lit ''\<newline>\<newline><!-- '' @ dateKey nowA @ lit '' -->\<newline>''
                     @ headerBlock (dateKey nowA) [10] [10] (displayDate (getCurrentDateTime nowA)) [10]
                     @ newEntryHTML nowB rtB @ newEntryHTML nowA rtA
                     @ lit ''\<newline>\<newline></div>'' @ drop p c0)
          \<and> (60 \<notin> set rtA \<and> 60 \<notin> set rtB \<longrightarrow>
                count_sub (dateTag (dateKey nowA))
                  (take p c0 @ lit ''\<newline>\<newline><!-- '' @ dateKey nowA @ lit '' -->\<newline>''
                   @ headerBlock (dateKey nowA) [10] [10] (displayDate (getCurrentDateTime nowA)) [10]
                   @ newEntryHTML nowB rtB @ newEntryHTML nowA rtA
                   @ lit ''\<newline>\<newline></div>'' @ drop p c0) = 1)))"
proof (intro conjI impI)
  assume h: "sublist containerMarker content
      \<and> content = pre @ headerBlock (dateKey now) w1 w2 lbl w3 @ post
      \<and> (\<forall>c\<in>set (w1 @ w2 @ w3). is_space c) \<and> lbl \<noteq> [] \<and> 60 \<notin> set lbl
      \<and> (\<forall>k<length pre. \<not> prefix (dateTag (dateKey now)) (drop k content))"
  then have w: "\<forall>c\<in>set w1. is_space c" "\<forall>c\<in>set w2. is_space c" "\<forall>c\<in>set w3. is_space c"
    by auto
  from h show "insertContent now rt content
      = Inr (pre @ headerBlock (dateKey now) w1 w2 lbl w3 @ newEntryHTML now rt @ post)"
    by (intro same_day_after_header w) blast+
next
  assume h: "first_at containerMarker n c0 \<and> \<not> sublist (dateTag (dateKey nowA)) c0
      \<and> dateKey nowB = dateKey nowA"
  then have c: "first_at containerMarker n c0" and d: "\<not> sublist (dateTag (dateKey nowA)) c0"
    and s: "dateKey nowB = dateKey nowA" by blast+
  from two_inserts_same_day[OF c d s, of rtA rtB] two_inserts_count[OF d, where rtA=rtA and rtB=rtB and nowB=nowB]
  show "\<exists>p. n + length containerMarker \<le> p \<and> p \<le> length c0
          \<and> insertContent nowA rtA c0 = Inr (take p c0 @ newDayHTML nowA rtA @ drop p c0)
          \<and> insertContent nowB rtB (take p c0 @ newDayHTML nowA rtA @ drop p c0)
              = Inr (take p c0 @ lit ''\<newline>\<newline><!-- '' @ dateKey nowA @ lit '' -->\<newline>''
                     @ headerBlock (dateKey nowA) [10] [10] (displayDate (getCurrentDateTime nowA)) [10]
                     @ newEntryHTML nowB rtB @ newEntryHTML nowA rtA
                     @ lit ''\<newline>\<newline></div>'' @ drop p c0)
          \<and> (60 \<notin> set rtA \<and> 60 \<notin> set rtB \<longrightarrow>
                count_sub (dateTag (dateKey nowA))
                  (take p c0 @ lit ''\<newline>\<newline><!-- '' @ dateKey nowA @ lit '' -->\<newline>''
                   @ headerBlock (dateKey nowA) [10] [10] (displayDate (getCurrentDateTime nowA)) [10]
                   @ newEntryHTML nowB rtB @ newEntryHTML nowA rtA
                   @ lit ''\<newline>\<newline></div>'' @ drop p c0) = 1)"
    by blast
qed

lemma dateKey_jan_morning: "dateKey \<lparr>year = 2024, month = 0, day = 15, hours = 9, minutes = 5,
    epoch_ms = 1705309500000\<rparr> = lit ''2024-01-15''"
  by (simp add: dateKey_def clock_defs lit_def Let_def)

lemma dateKey_jan_afternoon: "dateKey \<lparr>year = 2024, month = 0, day = 15, hours = 14, minutes = 30,
    epoch_ms = 1705329000000\<rparr> = lit ''2024-01-15''"
  by (simp add: dateKey_def clock_defs lit_def Let_def)

theorem same_day_insertion_witness:
  \<open>insertContent \<lparr>year = 2024, month = 0, day = 15, hours = 14, minutes = 30, epoch_ms = 1705329000000\<rparr>
      (lit ''second'')
      ((containerMarker @ [10]) @ headerBlock (lit ''2024-01-15'') [10] [32] (lit ''January 15, 2024'') []
        @ lit ''</div></div>'')
     = Inr ((containerMarker @ [10]) @ headerBlock (lit ''2024-01-15'') [10] [32] (lit ''January 15, 2024'') []
          @ newEntryHTML \<lparr>year = 2024, month = 0, day = 15, hours = 14, minutes = 30, epoch_ms = 1705329000000\<rparr> (lit ''second'')
          @ lit ''</div></div>'')
   \<and> (\<exists>c1. insertContent \<lparr>year = 2024, month = 0, day = 15, hours = 9, minutes = 5, epoch_ms = 1705309500000\<rparr>
            (lit ''first'') containerMarker = Inr c1
         \<and> insertContent \<lparr>year = 2024, month = 0, day = 15, hours = 14, minutes = 30, epoch_ms = 1705329000000\<rparr>
            (lit ''second'') c1
           = Inr (containerMarker @ lit ''\<newline>\<newline><!-- 2024-01-15 -->\<newline>''
               @ headerBlock (lit ''2024-01-15'') [10] [10] (lit ''January 15, 2024'') [10]
               @ newEntryHTML \<lparr>year = 2024, month = 0, day = 15, hours = 14, minutes = 30, epoch_ms = 1705329000000\<rparr> (lit ''second'')
               @ newEntryHTML \<lparr>year = 2024, month = 0, day = 15, hours = 9, minutes = 5, epoch_ms = 1705309500000\<rparr> (lit ''first'')
               @ lit ''\<newline>\<newline></div>''))
   \<and> count_sub (dateTag (lit ''2024-01-15''))
        (containerMarker @ lit ''\<newline>\<newline><!-- 2024-01-15 -->\<newline>''
               @ headerBlock (lit ''2024-01-15'') [10] [10] (lit ''January 15, 2024'') [10]
               @ newEntryHTML \<lparr>year = 2024, month = 0, day = 15, hours = 14, minutes = 30, epoch_ms = 1705329000000\<rparr> (lit ''second'')
               @ newEntryHTML \<lparr>year = 2024, month = 0, day = 15, hours = 9, minutes = 5, epoch_ms = 1705309500000\<rparr> (lit ''first'')
               @ lit ''\<newline>\<newline></div>'') = 1\<close>
proof -
  define nA where "nA = \<lparr>year = 2024, month = 0, day = 15, hours = 9, minutes = 5, epoch_ms = 1705309500000\<rparr>"
  define nB where "nB = \<lparr>year = 2024, month = 0, day = 15, hours = 14, minutes = 30, epoch_ms = 1705329000000\<rparr>"
  define pre where "pre = containerMarker @ [10]"
  define hb where "hb = headerBlock (lit ''2024-01-15'') [10] [32] (lit ''January 15, 2024'') []"
  define content where "content = pre @ hb @ lit ''</div></div>''"
  have dA: "dateKey nA = lit ''2024-01-15''" unfolding nA_def by (rule dateKey_jan_morning)
  have dB: "dateKey nB = lit ''2024-01-15''" unfolding nB_def by (rule dateKey_jan_afternoon)
  have ddA: "displayDate (getCurrentDateTime nA) = lit ''January 15, 2024''"
    by (simp add: nA_def clock_defs lit_def Let_def)
  note T = same_day_insertion[where content = content and pre = pre and now = nB
      and ?w1.0 = "[10]" and ?w2.0 = "[32]" and ?w3.0 = "[]" and lbl = "lit ''January 15, 2024''"
      and post = "lit ''</div></div>''" and rt = "lit ''second''"
      and n = 0 and ?c0.0 = containerMarker and nowA = nA and nowB = nB
      and rtA = "lit ''first''" and rtB = "lit ''second''"]
  have h1: "sublist containerMarker content"
    unfolding content_def pre_def by (metis append_Nil append_assoc sublist_appendI)
  have h2: "content = pre @ headerBlock (dateKey nB) [10] [32] (lit ''January 15, 2024'') []
      @ lit ''</div></div>''"
    by (simp add: content_def hb_def dB)
  have h3: "\<forall>c\<in>set ([10] @ [32] @ []). is_space c" by (simp add: is_space_def)
  have h4: "lit ''January 15, 2024'' \<noteq> []" "60 \<notin> set (lit ''January 15, 2024'')"
    by (simp_all add: lit_def)
  have "js_match content (Str (dateTag (dateKey nB))) = Some (length pre, dateTag (dateKey nB))"
    by (simp add: dB content_def pre_def hb_def headerBlock_def containerMarker_def dateTag_def
        dayTag_def lit_def js_match_def exec_from.simps)
  then have h5: "\<forall>k<length pre. \<not> prefix (dateTag (dateKey nB)) (drop k content)"
    using js_match_first_at first_at_def by blast
  from T[THEN conjunct1] h1 h2 h3 h4 h5
  have r1: "insertContent nB (lit ''second'') content
      = Inr (pre @ headerBlock (dateKey nB) [10] [32] (lit ''January 15, 2024'') []
             @ newEntryHTML nB (lit ''second'') @ lit ''</div></div>'')"
    by blast
  have g1: "first_at containerMarker 0 containerMarker" by (simp add: first_at_def)
  have g2: "\<not> sublist (dateTag (dateKey nA)) containerMarker"
    by (simp add: dA containerMarker_def dateTag_def dayTag_def lit_def sublist_code)
  have g3: "dateKey nB = dateKey nA" by (simp add: dA dB)
  have g4: "60 \<notin> set (lit ''first'') \<and> 60 \<notin> set (lit ''second'')" by (simp add: lit_def)
  from T[THEN conjunct2] g1 g2 g3 obtain p where
    p: "0 + length containerMarker \<le> p" "p \<le> length containerMarker"
    and r2: "insertContent nA (lit ''first'') containerMarker
        = Inr (take p containerMarker @ newDayHTML nA (lit ''first'') @ drop p containerMarker)"
      "insertContent nB (lit ''second'')
         (take p containerMarker @ newDayHTML nA (lit ''first'') @ drop p containerMarker)
        = Inr (take p containerMarker @ lit ''\<newline>\<newline><!-- '' @ dateKey nA @ lit '' -->\<newline>''
               @ headerBlock (dateKey nA) [10] [10] (displayDate (getCurrentDateTime nA)) [10]
               @ newEntryHTML nB (lit ''second'') @ newEntryHTML nA (lit ''first'')
               @ lit ''\<newline>\<newline></div>'' @ drop p containerMarker)"
    and r3: "60 \<notin> set (lit ''first'') \<and> 60 \<notin> set (lit ''second'') \<longrightarrow>
        count_sub (dateTag (dateKey nA))
          (take p containerMarker @ lit ''\<newline>\<newline><!-- '' @ dateKey nA @ lit '' -->\<newline>''
               @ headerBlock (dateKey nA) [10] [10] (displayDate (getCurrentDateTime nA)) [10]
               @ newEntryHTML nB (lit ''second'') @ newEntryHTML nA (lit ''first'')
               @ lit ''\<newline>\<newline></div>'' @ drop p containerMarker) = 1"
    by blast
  from p have pe: "take p containerMarker = containerMarker" "drop p containerMarker = []"
    by simp_all
  have cm: "\<And>X. lit ''\<newline>\<newline><!-- '' @ lit ''2024-01-15'' @ lit '' -->\<newline>'' @ X
      = lit ''\<newline>\<newline><!-- 2024-01-15 -->\<newline>'' @ X"
    by (simp add: lit_def)
  from r1 have w1: "insertContent nB (lit ''second'') ((containerMarker @ [10]) @ hb @ lit ''</div></div>'')
      = Inr ((containerMarker @ [10]) @ hb @ newEntryHTML nB (lit ''second'') @ lit ''</div></div>'')"
    unfolding content_def pre_def hb_def dB .
  note r2' = r2[unfolded pe dA ddA cm append_Nil2]
  from r3 g4 have r3': "count_sub (dateTag (dateKey nA))
          (take p containerMarker @ lit ''\<newline>\<newline><!-- '' @ dateKey nA @ lit '' -->\<newline>''
               @ headerBlock (dateKey nA) [10] [10] (displayDate (getCurrentDateTime nA)) [10]
               @ newEntryHTML nB (lit ''second'') @ newEntryHTML nA (lit ''first'')
               @ lit ''\<newline>\<newline></div>'' @ drop p containerMarker) = 1" by blast
  from r2' have w2: "\<exists>c1. insertContent nA (lit ''first'') containerMarker = Inr c1
      \<and> insertContent nB (lit ''second'') c1
        = Inr (containerMarker @ lit ''\<newline>\<newline><!-- 2024-01-15 -->\<newline>''
               @ headerBlock (lit ''2024-01-15'') [10] [10] (lit ''January 15, 2024'') [10]
               @ newEntryHTML nB (lit ''second'') @ newEntryHTML nA (lit ''first'')
               @ lit ''\<newline>\<newline></div>'')"
    by blast
  note w3 = r3'[unfolded pe dA ddA cm append_Nil2]
  from w1 w2 w3 show ?thesis unfolding nA_def nB_def hb_def by (intro conjI)
qed

section \<open>Where the rant text starts on the command line\<close>

lemma flag_literals:
  "startsWith (lit ''-c'') (lit ''-'')" "startsWith (lit ''--commit'') (lit ''-'')"
  "startsWith (lit ''-p'') (lit ''-'')" "startsWith (lit ''--push'') (lit ''-'')"
  "startsWith (lit ''-e'') (lit ''-'')" "startsWith (lit ''--editor'') (lit ''-'')"
  "startsWith (lit ''--gui'') (lit ''-'')"
  "startsWith (lit ''-m'') (lit ''-'')" "startsWith (lit ''--message'') (lit ''-'')"
  "startsWith (lit ''-f'') (lit ''-'')" "startsWith (lit ''--format'') (lit ''-'')"
  "startsWith (lit ''-s'') (lit ''-'')" "startsWith (lit ''--site'') (lit ''-'')"
  "startsWith (lit ''--config'') (lit ''-'')" "startsWith (lit ''--env'') (lit ''-'')"
  "startsWith (lit ''-h'') (lit ''-'')" "startsWith (lit ''--help'') (lit ''-'')"
  by (simp_all add: startsWith_def lit_def)

lemma parseLoop_text:
  assumes "\<not> startsWith a (lit ''-'')"
  shows "parseLoop lc sites (a # post) opts = Inr (opts\<lparr>rantText := Some (join_space (a # post))\<rparr>)"
proof -
  from assms flag_literals have "a \<noteq> lit ''-c''" "a \<noteq> lit ''--commit''" "a \<noteq> lit ''-p''"
    "a \<noteq> lit ''--push''" "a \<noteq> lit ''-e''" "a \<noteq> lit ''--editor''" "a \<noteq> lit ''--gui''"
    "a \<noteq> lit ''-m''" "a \<noteq> lit ''--message''" "a \<noteq> lit ''-f''" "a \<noteq> lit ''--format''"
    "a \<noteq> lit ''-s''" "a \<noteq> lit ''--site''" "a \<noteq> lit ''--config''" "a \<noteq> lit ''--env''"
    "a \<noteq> lit ''-h''" "a \<noteq> lit ''--help''"
    by blast+
  with assms show ?thesis by (simp del: join_space.simps)
qed


lemma parseLoop_plain:
  assumes v: "b \<noteq> lit ''-m''" "b \<noteq> lit ''--message''" "b \<noteq> lit ''-s''" "b \<noteq> lit ''--site''"
    and d: "startsWith b (lit ''-'')"
  shows "\<exists>r. \<forall>rest. parseLoop lc sites (b # rest) opts
     = (case r of None \<Rightarrow> Inl HelpShown | Some o' \<Rightarrow> parseLoop lc sites rest o')"
proof -
  have c1: ?thesis if "b = lit ''-c'' \<or> b = lit ''--commit''"
    by (rule exI[of _ "Some (opts\<lparr>commit := True\<rparr>)"]) (use that v in simp)
  have c2: ?thesis if "\<not> (b = lit ''-c'' \<or> b = lit ''--commit'')" "b = lit ''-p'' \<or> b = lit ''--push''"
    by (rule exI[of _ "Some (opts\<lparr>push := True, commit := True\<rparr>)"]) (use that v in simp)
  have c3: ?thesis if "\<not> (b = lit ''-c'' \<or> b = lit ''--commit'')" "\<not> (b = lit ''-p'' \<or> b = lit ''--push'')" "b = lit ''-e'' \<or> b = lit ''--editor''"
    by (rule exI[of _ "Some (opts\<lparr>editor := True\<rparr>)"]) (use that v in simp)
  have c4: ?thesis if "\<not> (b = lit ''-c'' \<or> b = lit ''--commit'')" "\<not> (b = lit ''-p'' \<or> b = lit ''--push'')" "\<not> (b = lit ''-e'' \<or> b = lit ''--editor'')" "b = lit ''--gui''"
    by (rule exI[of _ "Some (opts\<lparr>guiEditor := True, editor := True\<rparr>)"]) (use that v in simp)
  have c5: ?thesis if "\<not> (b = lit ''-c'' \<or> b = lit ''--commit'')" "\<not> (b = lit ''-p'' \<or> b = lit ''--push'')" "\<not> (b = lit ''-e'' \<or> b = lit ''--editor'')" "\<not> (b = lit ''--gui'')" "b = lit ''-f'' \<or> b = lit ''--format''"
    by (rule exI[of _ "Some (opts\<lparr>aiFormat := True\<rparr>)"]) (use that v in simp)
  have c6: ?thesis if "\<not> (b = lit ''-c'' \<or> b = lit ''--commit'')" "\<not> (b = lit ''-p'' \<or> b = lit ''--push'')" "\<not> (b = lit ''-e'' \<or> b = lit ''--editor'')" "\<not> (b = lit ''--gui'')" "\<not> (b = lit ''-f'' \<or> b = lit ''--format'')" "b = lit ''--config''"
    by (rule exI[of _ "Some (opts\<lparr>config := True\<rparr>)"]) (use that v in simp)
  have c7: ?thesis if "\<not> (b = lit ''-c'' \<or> b = lit ''--commit'')" "\<not> (b = lit ''-p'' \<or> b = lit ''--push'')" "\<not> (b = lit ''-e'' \<or> b = lit ''--editor'')" "\<not> (b = lit ''--gui'')" "\<not> (b = lit ''-f'' \<or> b = lit ''--format'')" "\<not> (b = lit ''--config'')" "b = lit ''--env''"
    by (rule exI[of _ "Some (opts\<lparr>showEnv := True\<rparr>)"]) (use that v in simp)
  have c8: ?thesis if "\<not> (b = lit ''-c'' \<or> b = lit ''--commit'')" "\<not> (b = lit ''-p'' \<or> b = lit ''--push'')" "\<not> (b = lit ''-e'' \<or> b = lit ''--editor'')" "\<not> (b = lit ''--gui'')" "\<not> (b = lit ''-f'' \<or> b = lit ''--format'')" "\<not> (b = lit ''--config'')" "\<not> (b = lit ''--env'')" "b = lit ''-h'' \<or> b = lit ''--help''"
    by (rule exI[of _ "None"]) (use that v in simp)
  have c9: ?thesis if "\<not> (b = lit ''-c'' \<or> b = lit ''--commit'')" "\<not> (b = lit ''-p'' \<or> b = lit ''--push'')" "\<not> (b = lit ''-e'' \<or> b = lit ''--editor'')" "\<not> (b = lit ''--gui'')" "\<not> (b = lit ''-f'' \<or> b = lit ''--format'')" "\<not> (b = lit ''--config'')" "\<not> (b = lit ''--env'')" "\<not> (b = lit ''-h'' \<or> b = lit ''--help'')"
    by (rule exI[of _ "Some opts"]) (use that v d in simp)
  from c1 c2 c3 c4 c5 c6 c7 c8 c9 show ?thesis by blast
qed

lemma parseLoop_value:
  assumes "b = lit ''-m'' \<or> b = lit ''--message'' \<or> b = lit ''-s'' \<or> b = lit ''--site''"
  shows "\<exists>r. \<forall>rest. parseLoop lc sites (b # v # rest) opts
     = (case r of None \<Rightarrow> Inl UnknownSite | Some o' \<Rightarrow> parseLoop lc sites rest o')"
proof -
  have m: ?thesis if "b = lit ''-m'' \<or> b = lit ''--message''"
  proof (rule exI[of _ "Some (opts\<lparr>message := Some v\<rparr>)"])
    from that show "\<forall>rest. parseLoop lc sites (b # v # rest) opts
        = (case Some (opts\<lparr>message := Some v\<rparr>) of None \<Rightarrow> Inl UnknownSite
           | Some o' \<Rightarrow> parseLoop lc sites rest o')"
    proof
      assume "b = lit ''-m''"
      then show ?thesis by (simp add: lit_def)
    next
      assume "b = lit ''--message''"
      then show ?thesis by (simp add: lit_def)
    qed
  qed
  have s: ?thesis if "b = lit ''-s'' \<or> b = lit ''--site''"
  proof (rule exI[of _ "if sites (lc v) \<noteq> None then Some (opts\<lparr>site := lc v\<rparr>) else None"])
    from that show "\<forall>rest. parseLoop lc sites (b # v # rest) opts
        = (case (if sites (lc v) \<noteq> None then Some (opts\<lparr>site := lc v\<rparr>) else None) of
             None \<Rightarrow> Inl UnknownSite | Some o' \<Rightarrow> parseLoop lc sites rest o')"
    proof
      assume "b = lit ''-s''"
      then show ?thesis by (simp add: lit_def)
    next
      assume "b = lit ''--site''"
      then show ?thesis by (simp add: lit_def)
    qed
  qed
  from assms m s show ?thesis by blast
qed


lemma parseLoop_flag_prefix:
  "flag_prefix pre \<Longrightarrow> \<not> startsWith a (lit ''-'') \<Longrightarrow>
     parseLoop lc sites (pre @ a # post) opts
       = (case parseLoop lc sites pre opts of
            Inl x \<Rightarrow> Inl x
          | Inr o' \<Rightarrow> Inr (o'\<lparr>rantText := Some (join_space (a # post))\<rparr>))"
proof (induction pre arbitrary: opts rule: flag_prefix.induct)
  case 1
  then show ?case by (simp add: parseLoop_text del: parseLoop.simps(2) join_space.simps)
next
  case (2 b rest)
  from "2.prems"(1) have d: "startsWith b (lit ''-'')" by simp
  show ?case
  proof (cases "b = lit ''-m'' \<or> b = lit ''--message'' \<or> b = lit ''-s'' \<or> b = lit ''--site''")
    case True
    with "2.prems"(1) obtain v rest' where r: "rest = v # rest'" and f: "flag_prefix rest'"
      by (cases rest) auto
    from parseLoop_value[OF True, of lc sites v opts] obtain q where
      q: "\<And>z. parseLoop lc sites (b # v # z) opts
         = (case q of None \<Rightarrow> Inl UnknownSite | Some o' \<Rightarrow> parseLoop lc sites z o')" by blast
    show ?thesis
    proof (cases q)
      case None
      with q[of rest'] q[of "rest' @ a # post"] show ?thesis by (simp add: r del: parseLoop.simps(2))
    next
      case (Some o')
      with q[of rest'] q[of "rest' @ a # post"] "2.IH"(1)[OF True r f "2.prems"(2), of o']
      show ?thesis by (simp add: r del: parseLoop.simps(2) join_space.simps)
    qed
  next
    case False
    with "2.prems"(1) have f: "flag_prefix rest" by simp
    from False have v: "b \<noteq> lit ''-m''" "b \<noteq> lit ''--message''" "b \<noteq> lit ''-s''" "b \<noteq> lit ''--site''"
      by blast+
    from parseLoop_plain[OF v d, of lc sites opts] obtain q where
      q: "\<And>z. parseLoop lc sites (b # z) opts
         = (case q of None \<Rightarrow> Inl HelpShown | Some o' \<Rightarrow> parseLoop lc sites z o')" by blast
    show ?thesis
    proof (cases q)
      case None
      with q[of rest] q[of "rest @ a # post"] show ?thesis by (simp del: parseLoop.simps(2))
    next
      case (Some o')
      with q[of rest] q[of "rest @ a # post"] "2.IH"(2)[OF False f "2.prems"(2), of o']
      show ?thesis by (simp del: parseLoop.simps(2) join_space.simps)
    qed
  qed
qed

text \<open>
  C10, as the script has it. The value that follows \<open>-m\<close>, \<open>--message\<close>, \<open>-s\<close> or \<open>--site\<close>
  is read as that flag's value, whatever it starts with. Let \<open>pre\<close> consist of
  arguments read in flag position, all starting with \<open>-\<close>, each value-taking flag with
  its value, and let \<open>a\<close> be the next argument, not starting with \<open>-\<close>. Then \<open>a\<close> and all
  arguments after it, joined with single spaces, are the rant text, and the other
  options are those that \<open>pre\<close> alone gives: nothing after \<open>a\<close> is read as a flag. A help
  flag or an unknown site in \<open>pre\<close> ends the run as it does for \<open>pre\<close> alone.
\<close>

theorem rant_text_after_flags:
  assumes "flag_prefix pre" and "\<not> startsWith a (lit ''-'')"
  shows "parseArgs lc sites (pre @ a # post)
     = (case parseArgs lc sites pre of
          Inl x \<Rightarrow> Inl x
        | Inr o' \<Rightarrow> Inr (o'\<lparr>rantText := Some (join_space (a # post))\<rparr>))"
  unfolding parseArgs_def by (rule parseLoop_flag_prefix[OF assms])

theorem rant_text_after_flags_witness:
  "parseArgs asciiLower (defaultSites (lit ''/home/u/projects''))
     [lit ''-m'', lit ''fix'', lit ''hello'', lit ''--push'', lit ''now'']
   = Inr (defaultOptions\<lparr>message := Some (lit ''fix''), rantText := Some (lit ''hello --push now'')\<rparr>)"
proof -
  have f: "flag_prefix [lit ''-m'', lit ''fix'']"
    by (simp add: startsWith_def lit_def)
  have a: "\<not> startsWith (lit ''hello'') (lit ''-'')"
    by (simp add: startsWith_def lit_def)
  have p: "parseArgs asciiLower (defaultSites (lit ''/home/u/projects'')) [lit ''-m'', lit ''fix'']
      = Inr (defaultOptions\<lparr>message := Some (lit ''fix'')\<rparr>)"
    by (simp add: parseArgs_def lit_def)
  note t = rant_text_after_flags[OF f a, of asciiLower "defaultSites (lit ''/home/u/projects'')"
      "[lit ''--push'', lit ''now'']", unfolded p]
  from t show ?thesis by (simp add: lit_def)
qed

text \<open>
  The claim as it is worded takes the first argument that does not start with \<open>-\<close> as
  the start of the rant text. For the arguments \<open>-m fix hello\<close> that reading gives the
  text \<open>fix hello\<close>; the script takes \<open>fix\<close> as the commit message and \<open>hello\<close> as the text.
\<close>

theorem first_non_dash_counterexample:
  "parseArgs asciiLower (defaultSites (lit ''/home/u/projects'')) [lit ''-m'', lit ''fix'', lit ''hello'']
     = Inr (defaultOptions\<lparr>message := Some (lit ''fix''), rantText := Some (lit ''hello'')\<rparr>)
   \<and> claimedRantText [lit ''-m'', lit ''fix'', lit ''hello''] = lit ''fix hello''
   \<and> lit ''hello'' \<noteq> claimedRantText [lit ''-m'', lit ''fix'', lit ''hello'']"
  by (simp add: parseArgs_def claimedRantText_def startsWith_def lit_def)

section \<open>The order of the repository commands\<close>

lemma insertRant_trace:
  "\<exists>evs. trace (snd (insertRant now rt cfg w)) = trace w @ evs"
  by (simp add: insertRant_def Let_def split: option.splits sum.splits)

lemma gitOperations_trace:
  "\<exists>evs. trace (snd (gitOperations e c p msg cfg w)) = trace w @ evs"
  by (simp add: gitOperations_def Let_def split: option.splits)

lemma pullFirst_cases:
  "pullFirst e cfg w =
     (if \<not> chdir_ok e then (Inl PullFailed, w)
      else if fst (git_pull e (rants_file w))
      then (Inr (), w\<lparr>rants_file := snd (git_pull e (rants_file w)),
                       trace := trace w @ [GitPull (branch cfg)]\<rparr>)
      else (Inl PullFailed, w\<lparr>rants_file := snd (git_pull e (rants_file w)),
                              trace := trace w @ [GitPull (branch cfg)]\<rparr>))"
  by (simp add: pullFirst_def Let_def split: prod.splits)

lemma publish_after_pull:
  assumes "push opts" "chdir_ok e"
  shows "\<exists>evs. trace (snd (publish e opts cfg text0 w)) = trace w @ GitPull (branch cfg) # evs"
proof -
  let ?w1 = "w\<lparr>rants_file := snd (git_pull e (rants_file w)),
                 trace := trace w @ [GitPull (branch cfg)]\<rparr>"
  let ?t = "trim (if aiFormat opts then formatWithAI e (trim text0) else text0)"
  show ?thesis
  proof (cases "fst (git_pull e (rants_file w))")
    case False
    with assms show ?thesis by (simp add: publish_def pullFirst_cases Let_def)
  next
    case True
    obtain r w2 where i: "insertRant (clock e) ?t cfg ?w1 = (r, w2)" by (cases "insertRant (clock e) ?t cfg ?w1")
    from insertRant_trace[of "clock e" ?t cfg ?w1] i obtain ev2
      where w2: "trace w2 = trace w @ GitPull (branch cfg) # ev2" by auto
    show ?thesis
    proof (cases r)
      case (Inl x)
      with assms True i w2 show ?thesis by (simp add: publish_def pullFirst_cases Let_def)
    next
      case (Inr res)
      from gitOperations_trace[of e "commit opts" "push opts" "message opts" cfg w2] w2
      obtain ev3 where "trace (snd (gitOperations e (commit opts) (push opts) (message opts) cfg w2))
          = trace w @ GitPull (branch cfg) # ev2 @ ev3" by auto
      with assms True i Inr show ?thesis by (simp add: publish_def pullFirst_cases Let_def)
    qed
  qed
qed

lemma publish_pull_failed:
  assumes "push opts" "\<not> chdir_ok e \<or> \<not> fst (git_pull e (rants_file w))"
  shows "publish e opts cfg text0 w =
     (Inl PullFailed,
      if chdir_ok e
      then w\<lparr>rants_file := snd (git_pull e (rants_file w)), trace := trace w @ [GitPull (branch cfg)]\<rparr>
      else w)"
  using assms by (auto simp: publish_def pullFirst_cases Let_def)

lemma main_cases:
  "snd (main e lc sites args w) = w
   \<or> (\<exists>opts cfg text0. parseArgs lc sites args = Inr opts \<and> sites (site opts) = Some cfg
        \<and> main e lc sites args w = publish e opts cfg text0 w)"
  by (auto simp: main_def Let_def split: sum.splits option.splits if_splits)

text \<open>
  C6. \<open>publish\<close> is \<open>main\<close> from the point where the rant text is known; before that
  point \<open>main\<close> starts no command and writes nothing (third part). When a push was
  requested, the first event of \<open>publish\<close> is the pull on the configured branch (or there
  is no event at all, when the site directory cannot be entered), so the write of the
  document comes after the pull. When the pull fails, the run exits with \<open>PullFailed\<close>,
  whose exit code is not zero; the trace gets at most the pull, so the document is not
  written and nothing is staged, committed or pushed, and the document file is as the
  pull left it.
\<close>

theorem pull_before_mutation:
  "(push opts \<longrightarrow>
      (\<exists>evs. trace (snd (publish e opts cfg text0 w)) = trace w @ evs
         \<and> (evs = [] \<or> (\<exists>evs'. evs = GitPull (branch cfg) # evs'))))
   \<and> (push opts \<and> (\<not> chdir_ok e \<or> \<not> fst (git_pull e (rants_file w))) \<longrightarrow>
        fst (publish e opts cfg text0 w) = Inl PullFailed \<and> exit_code PullFailed \<noteq> 0
        \<and> trace (snd (publish e opts cfg text0 w))
            = trace w @ (if chdir_ok e then [GitPull (branch cfg)] else [])
        \<and> rants_file (snd (publish e opts cfg text0 w))
            = (if chdir_ok e then snd (git_pull e (rants_file w)) else rants_file w))
   \<and> (snd (main e lc sites args w) = w
        \<or> (\<exists>opts' cfg' text'. parseArgs lc sites args = Inr opts' \<and> sites (site opts') = Some cfg'
             \<and> main e lc sites args w = publish e opts' cfg' text' w))"
proof (intro conjI impI)
  assume p: "push opts"
  show "\<exists>evs. trace (snd (publish e opts cfg text0 w)) = trace w @ evs
         \<and> (evs = [] \<or> (\<exists>evs'. evs = GitPull (branch cfg) # evs'))"
  proof (cases "chdir_ok e")
    case True
    from publish_after_pull[OF p True] show ?thesis by blast
  next
    case False
    with publish_pull_failed[OF p, of e w cfg text0] show ?thesis by simp
  qed
next
  assume h: "push opts \<and> (\<not> chdir_ok e \<or> \<not> fst (git_pull e (rants_file w)))"
  then have eq: "publish e opts cfg text0 w =
     (Inl PullFailed,
      if chdir_ok e
      then w\<lparr>rants_file := snd (git_pull e (rants_file w)), trace := trace w @ [GitPull (branch cfg)]\<rparr>
      else w)"
    by (intro publish_pull_failed) blast+
  show "fst (publish e opts cfg text0 w) = Inl PullFailed" by (simp add: eq)
  show "exit_code PullFailed \<noteq> 0" by simp
  show "trace (snd (publish e opts cfg text0 w))
      = trace w @ (if chdir_ok e then [GitPull (branch cfg)] else [])" by (simp add: eq)
  show "rants_file (snd (publish e opts cfg text0 w))
      = (if chdir_ok e then snd (git_pull e (rants_file w)) else rants_file w)" by (simp add: eq)
next
  show "snd (main e lc sites args w) = w
        \<or> (\<exists>opts' cfg' text'. parseArgs lc sites args = Inr opts' \<and> sites (site opts') = Some cfg'
             \<and> main e lc sites args w = publish e opts' cfg' text' w)"
    by (rule main_cases)
qed

section \<open>No change, no commit\<close>


lemma trim_hello: "trim (lit ''hello'') = lit ''hello''"
  by (simp add: trim_def is_space_def lit_def)

theorem pull_before_mutation_witness:
  "fst (main pullFailsEnv asciiLower (defaultSites (lit ''/home/u/projects''))
          [lit ''-p'', lit ''hello''] \<lparr>rants_file = Some containerMarker, trace = []\<rparr>)
     = Inl PullFailed
   \<and> snd (main pullFailsEnv asciiLower (defaultSites (lit ''/home/u/projects''))
          [lit ''-p'', lit ''hello''] \<lparr>rants_file = Some containerMarker, trace = []\<rparr>)
     = \<lparr>rants_file = Some containerMarker, trace = [GitPull (lit ''main'')]\<rparr>"
proof -
  define opts where "opts = defaultOptions\<lparr>push := True, commit := True, rantText := Some (lit ''hello'')\<rparr>"
  define cfg where "cfg = \<lparr>path = lit ''/home/u/projects'' @ lit ''/tourwithmark_2025'',
    filename = lit ''rants.qmd'', branch = lit ''main''\<rparr>"
  define w where "w = \<lparr>rants_file = Some containerMarker, trace = []\<rparr>"
  have pa: "parseArgs asciiLower (defaultSites (lit ''/home/u/projects'')) [lit ''-p'', lit ''hello'']
      = Inr opts"
    by (simp add: parseArgs_def opts_def startsWith_def lit_def)
  have st: "defaultSites (lit ''/home/u/projects'') (site opts) = Some cfg"
    by (simp add: opts_def defaultOptions_def defaultSites_def cfg_def)
  have m: "main pullFailsEnv asciiLower (defaultSites (lit ''/home/u/projects''))
      [lit ''-p'', lit ''hello''] w = publish pullFailsEnv opts cfg (lit ''hello'') w"
    unfolding main_def pa sum.case st option.case
    by (simp add: opts_def defaultOptions_def truthy_def to_text_def trim_hello Let_def)
       (simp add: lit_def)
  have h: "push opts \<and> (\<not> chdir_ok pullFailsEnv \<or> \<not> fst (git_pull pullFailsEnv (rants_file w)))"
    by (simp add: opts_def pullFailsEnv_def)
  from pull_before_mutation[of opts pullFailsEnv cfg "lit ''hello''" w, THEN conjunct2, THEN conjunct1] h
  have r: "fst (publish pullFailsEnv opts cfg (lit ''hello'') w) = Inl PullFailed"
    "trace (snd (publish pullFailsEnv opts cfg (lit ''hello'') w))
        = trace w @ (if chdir_ok pullFailsEnv then [GitPull (branch cfg)] else [])"
    "rants_file (snd (publish pullFailsEnv opts cfg (lit ''hello'') w))
        = (if chdir_ok pullFailsEnv then snd (git_pull pullFailsEnv (rants_file w)) else rants_file w)"
    by blast+
  have "snd (publish pullFailsEnv opts cfg (lit ''hello'') w)
      = \<lparr>rants_file = Some containerMarker, trace = [GitPull (lit ''main'')]\<rparr>"
    using r(2,3) by (cases "snd (publish pullFailsEnv opts cfg (lit ''hello'') w)")
      (simp add: w_def cfg_def pullFailsEnv_def)
  with r(1) show ?thesis unfolding m[unfolded w_def] w_def by simp
qed



end
